theory Spec2Isabelle
  imports Main "HOL-Library.Monad_Syntax"
begin

section \<open>Go notions shared by the two registries\<close>

text \<open>
  A Go operation either completes or panics. An operation of the model that can reach a
  panicking Go construct (assignment into a nil map, a slice expression or an index out of
  range, dereferencing the zero \<open>unique.Handle\<close>) returns an \<open>option\<close>: \<open>None\<close> is the
  panic. Locks are not modelled: every operation below is the body a goroutine executes
  while it holds the registry lock, and \<open>Broadcast\<close> is the one operation that runs user
  code after it released the lock.

  A Go map \<open>map[string]V\<close> may be nil. It is a value of type \<open>(string \<rightharpoonup> 'v) option\<close>,
  \<open>None\<close> being the nil map of a registry built as \<open>&Broadcast[T]{}\<close>.
\<close>

type_synonym 'v gomap = "(string \<rightharpoonup> 'v) option"

definition map_index :: "'v gomap \<Rightarrow> string \<Rightarrow> 'v option" where
  \<comment> \<open>\<open>m[k]\<close>: a nil map reads like an empty one; \<open>None\<close> is the zero value (the nil slice)\<close>
  "map_index m k = (case m of None \<Rightarrow> None | Some f \<Rightarrow> f k)"

definition map_assign :: "'v gomap \<Rightarrow> string \<Rightarrow> 'v \<Rightarrow> 'v gomap option" where
  \<comment> \<open>\<open>m[k] = v\<close>: panics on a nil map\<close>
  "map_assign m k v = (case m of None \<Rightarrow> None | Some f \<Rightarrow> Some (Some (f(k \<mapsto> v))))"

definition map_delete :: "'v gomap \<Rightarrow> string \<Rightarrow> 'v gomap" where
  \<comment> \<open>\<open>delete(m, k)\<close>: no-op on a nil map and on an absent key\<close>
  "map_delete m k = (case m of None \<Rightarrow> None | Some f \<Rightarrow> Some (f(k := None)))"

definition map_entries :: "'v gomap \<Rightarrow> (string \<rightharpoonup> 'v)" where
  \<comment> \<open>the entries a \<open>range\<close> over the map sees; none for the nil map\<close>
  "map_entries m = (case m of None \<Rightarrow> Map.empty | Some f \<Rightarrow> f)"

definition lazy_map :: "'v gomap \<Rightarrow> 'v gomap" where
  \<comment> \<open>\<open>if m == nil { m = make(map[string]V) }\<close>\<close>
  "lazy_map m = (case m of None \<Rightarrow> Some Map.empty | Some f \<Rightarrow> Some f)"

definition elems :: "'x list option \<Rightarrow> 'x list" where
  \<comment> \<open>the elements of a slice that may be nil\<close>
  "elems xs = (case xs of None \<Rightarrow> [] | Some ys \<Rightarrow> ys)"

fun first_index :: "('x \<Rightarrow> bool) \<Rightarrow> 'x list \<Rightarrow> nat option" where
  \<comment> \<open>\<open>for i, item := range xs { if P(item) { ...; break } }\<close>: the index the loop stops at\<close>
  "first_index P [] = None"
| "first_index P (x # xs) = (if P x then Some 0 else map_option Suc (first_index P xs))"

definition reslice :: "'x list \<Rightarrow> nat \<Rightarrow> nat \<Rightarrow> 'x list option" where
  \<comment> \<open>the elements of \<open>xs[lo:hi]\<close>; the slice expression panics unless \<open>lo \<le> hi \<le> len\<close>\<close>
  "reslice xs lo hi =
     (if lo \<le> hi \<and> hi \<le> length xs then Some (take (hi - lo) (drop lo xs)) else None)"

text \<open>
  Go ranges over a map in an order it does not specify. \<open>Range\<close> takes that order as an
  argument \<open>order\<close>, a list of signals; a theorem about \<open>Range\<close> holds for every order
  that enumerates the keys of the map once each. The visitor is a closure: it carries its
  own state \<open>'v\<close>. The loop returns the calls it made in order, each with the signal, the
  count and what the visitor answered, and the visitor's state.
\<close>

type_synonym 'v visitor = "string \<Rightarrow> int \<Rightarrow> 'v \<Rightarrow> bool \<times> 'v"

fun range_map :: "'v visitor \<Rightarrow> (string \<rightharpoonup> nat) \<Rightarrow> string list \<Rightarrow> 'v
    \<Rightarrow> (string \<times> int \<times> bool) list \<times> 'v" where
  "range_map fn m [] v = ([], v)"
| "range_map fn m (signal # rest) v =
     (case m signal of
        None \<Rightarrow> range_map fn m rest v
      | Some n \<Rightarrow>
          (let (continue, v') = fn signal (int n) v
           in if \<not> continue then ([(signal, int n, continue)], v')
              else (let (calls, v'') = range_map fn m rest v'
                    in ((signal, int n, continue) # calls, v''))))"

definition enumerates :: "string list \<Rightarrow> (string \<rightharpoonup> 'x) \<Rightarrow> bool" where
  "enumerates order m \<longleftrightarrow> distinct order \<and> set order = dom m"

section \<open>The keyed registry (UniqueBroadcast)\<close>

text \<open>
  A \<open>Uniquer[K, T]\<close> is a capability with a key \<open>Unique()\<close> and a payload \<open>Value()\<close>. The
  model takes both accessors to be pure and the capability to be a non-nil interface value:
  a capability is the pair of what they return. \<open>unique.Handle[K]\<close> values compare equal
  exactly when the keys they were made from do, so a handle is modelled by its key. Handlers
  are closures; the registry only stores and calls them, so they are values of an arbitrary
  type \<open>'h\<close>, run by a function \<open>call\<close>.

  The two registries have operations of the same names; those of the keyed one carry the
  prefix \<open>U\<close> here (\<open>UWatch\<close> is \<open>UniqueBroadcast.Watch\<close>), and its fields are
  \<open>uhandlers\<close> and \<open>ulisteners\<close>.

  The slices a \<open>UniqueBroadcast\<close> stores are never written after they are stored
  (\<open>Watch\<close> and \<open>Unwatch\<close> build a new slice, \<open>Broadcast\<close> copies), so a slice is the
  list of its elements. A stored listener slice is never nil: a nil slice comes only from
  reading a signal that is not in the map.
\<close>

datatype ('k, 't) Uniquer = Uniquer (Unique: 'k) (Value: 't)

record ('h, 'k, 't) UniqueBroadcast =
  uhandlers :: "'h list option"
  ulisteners :: "('k, 't) Uniquer list gomap"

definition NewUnique :: "('h, 'k, 't) UniqueBroadcast" where
  "NewUnique = \<lparr>uhandlers = Some [], ulisteners = Some Map.empty\<rparr>"


definition UHandle :: "'h \<Rightarrow> ('h, 'k, 't) UniqueBroadcast \<Rightarrow> ('h, 'k, 't) UniqueBroadcast" where
  "UHandle handler b = b\<lparr>uhandlers := Some (elems (uhandlers b) @ [handler])\<rparr>"

text \<open>
  \<^verbatim>\<open>
  func (b *UniqueBroadcast[K, T]) Watch(signal string, data Uniquer[K, T]) {
      if b.listeners == nil { b.listeners = make(map[string][]Uniquer[K, T]) }
      listeners := b.listeners[signal]
      handle := data.Unique()
      for _, listener := range listeners {
          if listener.Unique() == handle { return }
      }
      newListeners := make([]Uniquer[K, T], len(listeners)+1)
      copy(newListeners, listeners)
      newListeners[len(listeners)] = data
      b.listeners[signal] = newListeners
  }
  \<close>
\<close>

definition UWatch :: "string \<Rightarrow> ('k, 't) Uniquer \<Rightarrow> ('h, 'k, 't) UniqueBroadcast
    \<Rightarrow> ('h, 'k, 't) UniqueBroadcast option" where
  "UWatch signal data b =
     (let m = lazy_map (ulisteners b);
          listeners = elems (map_index m signal);
          handle = Unique data
      in case first_index (\<lambda>listener. Unique listener = handle) listeners of
           Some i \<Rightarrow> Some (b\<lparr>ulisteners := m\<rparr>)
         | None \<Rightarrow> do {
             m' \<leftarrow> map_assign m signal (listeners @ [data]);
             Some (b\<lparr>ulisteners := m'\<rparr>)
           })"

text \<open>
  \<^verbatim>\<open>
  func (b *UniqueBroadcast[K, T]) Unwatch(signal string, data Uniquer[K, T]) {
      listeners := b.listeners[signal]
      if listeners == nil { return }
      handle := data.Unique()
      for i, item := range listeners {
          if item.Unique() == handle {
              newListeners := make([]Uniquer[K, T], 0, len(listeners)-1)
              newListeners = append(newListeners, listeners[:i]...)
              newListeners = append(newListeners, listeners[i+1:]...)
              b.listeners[signal] = newListeners
              break
          }
      }
  }
  \<close>
\<close>

definition UUnwatch :: "string \<Rightarrow> ('k, 't) Uniquer \<Rightarrow> ('h, 'k, 't) UniqueBroadcast
    \<Rightarrow> ('h, 'k, 't) UniqueBroadcast option" where
  "UUnwatch signal data b =
     (case map_index (ulisteners b) signal of
        None \<Rightarrow> Some b
      | Some listeners \<Rightarrow>
          (let handle = Unique data
           in case first_index (\<lambda>item. Unique item = handle) listeners of
                None \<Rightarrow> Some b
              | Some i \<Rightarrow> do {
                  front \<leftarrow> reslice listeners 0 i;
                  back \<leftarrow> reslice listeners (i + 1) (length listeners);
                  m' \<leftarrow> map_assign (ulisteners b) signal (front @ back);
                  Some (b\<lparr>ulisteners := m'\<rparr>)
                }))"

text \<open>
  The remaining operations have the same bodies in the two registries (locking left out):
  \<^verbatim>\<open>
  func (b *UniqueBroadcast[K, T]) Handle(handler UniqueHandler[K, T]) {
      if b.handlers == nil { b.handlers = make([]UniqueHandler[K, T], 0) }
      b.handlers = append(b.handlers, handler)
  }
  func (b *UniqueBroadcast[K, T]) Clean(signal string) { delete(b.listeners, signal) }
  func (b *UniqueBroadcast[K, T]) CleanAll() { b.listeners = make(map[string][]Uniquer[K, T]) }
  func (b *UniqueBroadcast[K, T]) HasWatch(signal string) bool {
      listeners, exists := b.listeners[signal]
      return exists && len(listeners) > 0
  }
  func (b *UniqueBroadcast[K, T]) WatchCount(signal string) int {
      return len(b.listeners[signal])
  }
  func (b *UniqueBroadcast[K, T]) Range(fn func(signal string, count int) bool) {
      for signal, listeners := range b.listeners {
          if !fn(signal, len(listeners)) { break }
      }
  }
  \<close>
\<close>

definition UClean :: "string \<Rightarrow> ('h, 'k, 't) UniqueBroadcast \<Rightarrow> ('h, 'k, 't) UniqueBroadcast" where
  "UClean signal b = b\<lparr>ulisteners := map_delete (ulisteners b) signal\<rparr>"

definition UCleanAll :: "('h, 'k, 't) UniqueBroadcast \<Rightarrow> ('h, 'k, 't) UniqueBroadcast" where
  "UCleanAll b = b\<lparr>ulisteners := Some Map.empty\<rparr>"

definition UHasWatch :: "string \<Rightarrow> ('h, 'k, 't) UniqueBroadcast \<Rightarrow> bool" where
  "UHasWatch signal b =
     (case map_entries (ulisteners b) signal of
        None \<Rightarrow> False
      | Some listeners \<Rightarrow> length listeners > 0)"

definition UWatchCount :: "string \<Rightarrow> ('h, 'k, 't) UniqueBroadcast \<Rightarrow> int" where
  "UWatchCount signal b = int (length (elems (map_index (ulisteners b) signal)))"

definition URange :: "'v visitor \<Rightarrow> string list \<Rightarrow> ('h, 'k, 't) UniqueBroadcast \<Rightarrow> 'v
    \<Rightarrow> (string \<times> int \<times> bool) list \<times> 'v" where
  "URange fn order b v = range_map fn (map_option length \<circ> map_entries (ulisteners b)) order v"

text \<open>
  \<open>Broadcast\<close> copies the listeners of the signal and the handlers, then calls every
  handler on every listener's payload. A handler is user code: it may change anything it
  can reach, the registry included (the lock is released), and it returns an error that
  \<open>Broadcast\<close> drops. So a call maps a world, the registry paired with the rest of the
  program's state \<open>'u\<close>, to the error flag and the next world. The loops also return the
  invocations they made, handler and payload, in order.
  \<^verbatim>\<open>
  func (b *UniqueBroadcast[K, T]) Broadcast(signal string) {
      b.mu.RLock()
      listeners := make([]Uniquer[K, T], len(b.listeners[signal]))
      copy(listeners, b.listeners[signal])
      handlers := make([]UniqueHandler[K, T], len(b.handlers))
      copy(handlers, b.handlers)
      b.mu.RUnlock()
      for _, handler := range handlers {
          for _, data := range listeners {
              dataCopy := data.Value()
              _ = handler(signal, dataCopy)
          }
      }
  }
  \<close>
\<close>

type_synonym ('h, 't, 'w) invoke = "'h \<Rightarrow> string \<Rightarrow> 't \<Rightarrow> 'w \<Rightarrow> bool \<times> 'w"

primrec ueach_listener :: "('h, 't, 'w) invoke \<Rightarrow> string \<Rightarrow> 'h \<Rightarrow> ('k, 't) Uniquer list \<Rightarrow> 'w
    \<Rightarrow> ('h \<times> 't) list \<times> 'w" where
  "ueach_listener call signal handler [] w = ([], w)"
| "ueach_listener call signal handler (data # rest) w =
     (let dataCopy = Value data;
          (err, w') = call handler signal dataCopy w;
          (calls, w'') = ueach_listener call signal handler rest w'
      in ((handler, dataCopy) # calls, w''))"

primrec ueach_handler :: "('h, 't, 'w) invoke \<Rightarrow> string \<Rightarrow> 'h list \<Rightarrow> ('k, 't) Uniquer list \<Rightarrow> 'w
    \<Rightarrow> ('h \<times> 't) list \<times> 'w" where
  "ueach_handler call signal [] listeners w = ([], w)"
| "ueach_handler call signal (handler # rest) listeners w =
     (let (calls, w') = ueach_listener call signal handler listeners w;
          (calls', w'') = ueach_handler call signal rest listeners w'
      in (calls @ calls', w''))"

definition UBroadcast :: "('h, 't, ('h, 'k, 't) UniqueBroadcast \<times> 'u) invoke \<Rightarrow> string
    \<Rightarrow> ('h, 'k, 't) UniqueBroadcast \<times> 'u
    \<Rightarrow> ('h \<times> 't) list \<times> (('h, 'k, 't) UniqueBroadcast \<times> 'u)" where
  "UBroadcast call signal w =
     (let b = fst w;
          listeners = elems (map_index (ulisteners b) signal);
          handlers = elems (uhandlers b)
      in ueach_handler call signal handlers listeners w)"

text \<open>
  The operations a caller (or a handler, from inside \<open>Broadcast\<close>) can apply to change a
  \<open>UniqueBroadcast\<close>, and what a sequence of them does. The states of a registry are those
  a sequence of calls reaches from a new one, built by \<open>NewUnique\<close> or as the zero value.
\<close>

datatype ('h, 'k, 't) ucall =
  UCallHandle 'h
| UCallWatch string "('k, 't) Uniquer"
| UCallUnwatch string "('k, 't) Uniquer"
| UCallClean string
| UCallCleanAll

fun uapply :: "('h, 'k, 't) ucall \<Rightarrow> ('h, 'k, 't) UniqueBroadcast \<Rightarrow> ('h, 'k, 't) UniqueBroadcast option" where
  "uapply (UCallHandle handler) b = Some (UHandle handler b)"
| "uapply (UCallWatch signal data) b = UWatch signal data b"
| "uapply (UCallUnwatch signal data) b = UUnwatch signal data b"
| "uapply (UCallClean signal) b = Some (UClean signal b)"
| "uapply UCallCleanAll b = Some (UCleanAll b)"

fun uapply_all :: "('h, 'k, 't) ucall list \<Rightarrow> ('h, 'k, 't) UniqueBroadcast \<Rightarrow> ('h, 'k, 't) UniqueBroadcast option" where
  "uapply_all [] b = Some b"
| "uapply_all (c # cs) b = (case uapply c b of None \<Rightarrow> None | Some b' \<Rightarrow> uapply_all cs b')"


definition uentries :: "string \<Rightarrow> ('h, 'k, 't) UniqueBroadcast \<Rightarrow> ('k, 't) Uniquer list" where
  \<comment> \<open>the listeners registered under a signal, in insertion order\<close>
  "uentries signal b = elems (map_index (ulisteners b) signal)"

definition ukeys :: "string \<Rightarrow> ('h, 'k, 't) UniqueBroadcast \<Rightarrow> 'k list" where
  \<comment> \<open>their deduplication identities\<close>
  "ukeys signal b = map Unique (uentries signal b)"

section \<open>The direct registry (Broadcast)\<close>

text \<open>
  \<open>Broadcast[T]\<close> keeps \<open>[]unique.Handle[T]\<close> per signal. \<open>unique.Make\<close> maps equal values
  of \<open>T\<close> to equal handles and \<open>Value()\<close> gives the value back, so the handle of \<open>x\<close> is
  \<open>Some x\<close> and the zero handle, whose \<open>Value()\<close> dereferences nil, is \<open>None\<close>. (Equality
  on \<open>T\<close> is HOL equality and \<open>unique.Make\<close> is total: payloads that are not equal to
  themselves, such as a struct with a NaN field, and interface payloads of a type that
  cannot be compared are outside the model.)

  This registry writes into the arrays behind its slices: \<open>Unwatch\<close> removes an element
  with \<open>append(listeners[:i], listeners[i+1:]...)\<close>, which moves the tail down inside the
  same array, \<open>Watch\<close> appends into spare capacity, and \<open>Broadcast\<close> keeps the slice it
  read from the map without copying it. So the model has a store: \<open>heap\<close> is the list
  of the arrays allocated so far (an address is an index into it, and an array's capacity
  is its length), and a slice is the address of its array and its length. All slices of
  the registry start at index 0 of their array. Arrays are never freed: the collector keeps
  every array some slice still refers to, and an array nothing refers to is never read.

  When \<open>append\<close> has to allocate, the capacity of the new array is the runtime's choice;
  the language only promises that it is large enough. The choice is the parameter
  \<open>growcap\<close> (old capacity, needed length), used through \<open>newcap\<close>.

  The handler slice is only appended to and elements below its length are never
  rewritten, so a copy of the slice header and a copy of the elements read the same
  handlers: it is a list.
\<close>

datatype slice = Slice (base: nat) (len: nat)

type_synonym 'a heap = "'a option list list"

record ('h, 'a) Broadcast_reg =
  handlers :: "'h list option"
  listeners :: "slice gomap"
  heap :: "'a heap"

definition New :: "('h, 'a) Broadcast_reg" where
  "New = \<lparr>handlers = Some [], listeners = Some Map.empty, heap = []\<rparr>"

definition Zero :: "('h, 'a) Broadcast_reg" where
  \<comment> \<open>\<open>&Broadcast[T]{}\<close>, as the README and tests build it\<close>
  "Zero = \<lparr>handlers = None, listeners = None, heap = []\<rparr>"

definition slice_len :: "slice option \<Rightarrow> nat" where
  "slice_len sl = (case sl of None \<Rightarrow> 0 | Some s \<Rightarrow> len s)"

definition slice_elems :: "'a heap \<Rightarrow> slice option \<Rightarrow> 'a option list option" where
  \<comment> \<open>the elements a \<open>range\<close> over the slice reads; a nil slice has none\<close>
  "slice_elems h sl =
     (case sl of
        None \<Rightarrow> Some []
      | Some s \<Rightarrow>
          if base s < length h \<and> len s \<le> length (h ! base s)
          then Some (take (len s) (h ! base s)) else None)"

definition slice_index :: "'a heap \<Rightarrow> slice option \<Rightarrow> nat \<Rightarrow> 'a option option" where
  \<comment> \<open>\<open>s[j]\<close>, read from the array as it is now\<close>
  "slice_index h sl j =
     (case sl of
        None \<Rightarrow> None
      | Some s \<Rightarrow>
          if base s < length h \<and> len s \<le> length (h ! base s) \<and> j < len s
          then Some (h ! base s ! j) else None)"

definition newcap :: "(nat \<Rightarrow> nat \<Rightarrow> nat) \<Rightarrow> nat \<Rightarrow> nat \<Rightarrow> nat" where
  "newcap growcap old need = max need (growcap old need)"

definition append_slice :: "(nat \<Rightarrow> nat \<Rightarrow> nat) \<Rightarrow> 'a heap \<Rightarrow> slice option \<Rightarrow> 'a option list
    \<Rightarrow> (slice \<times> 'a heap) option" where
  \<comment> \<open>\<open>append(s, xs...)\<close> for at least one element or a non-nil \<open>s\<close>: in place when the
      capacity suffices, else into a new array\<close>
  "append_slice growcap h sl xs =
     (case sl of
        None \<Rightarrow>
          Some (Slice (length h) (length xs),
                h @ [xs @ replicate (newcap growcap 0 (length xs) - length xs) None])
      | Some s \<Rightarrow>
          if base s < length h \<and> len s \<le> length (h ! base s)
          then (let old = h ! base s; need = len s + length xs
                in if need \<le> length old
                   then Some (Slice (base s) need,
                              h[base s := take (len s) old @ xs @ drop need old])
                   else Some (Slice (length h) need,
                              h @ [take (len s) old @ xs
                                   @ replicate (newcap growcap (length old) need - need) None]))
          else None)"

text \<open>
  \<^verbatim>\<open>
  func (b *Broadcast[T]) Watch(signal string, data T) {
      if b.listeners == nil { b.listeners = make(map[string][]unique.Handle[T]) }
      var (
          handle    = unique.Make(data)
          listeners = b.listeners[signal]
      )
      for _, listener := range listeners {
          if listener == handle { return }
      }
      b.listeners[signal] = append(b.listeners[signal], handle)
  }

  func (b *Broadcast[T]) Unwatch(signal string, data T) {
      var (
          handle    = unique.Make(data)
          listeners = b.listeners[signal]
      )
      if listeners == nil { return }
      for i, item := range listeners {
          if item == handle {
              b.listeners[signal] = append(listeners[:i], listeners[i+1:]...)
              break
          }
      }
  }
  \<close>
\<close>

definition Handle :: "'h \<Rightarrow> ('h, 'a) Broadcast_reg \<Rightarrow> ('h, 'a) Broadcast_reg" where
  "Handle handler b = b\<lparr>handlers := Some (elems (handlers b) @ [handler])\<rparr>"

definition Watch :: "(nat \<Rightarrow> nat \<Rightarrow> nat) \<Rightarrow> string \<Rightarrow> 'a \<Rightarrow> ('h, 'a) Broadcast_reg
    \<Rightarrow> ('h, 'a) Broadcast_reg option" where
  "Watch growcap signal data b =
     (let m = lazy_map (listeners b);
          handle = Some data;
          ls = map_index m signal
      in do {
           items \<leftarrow> slice_elems (heap b) ls;
           case first_index (\<lambda>listener. listener = handle) items of
             Some i \<Rightarrow> Some (b\<lparr>listeners := m\<rparr>)
           | None \<Rightarrow> do {
               (s', h') \<leftarrow> append_slice growcap (heap b) (map_index m signal) [handle];
               m' \<leftarrow> map_assign m signal s';
               Some (b\<lparr>listeners := m', heap := h'\<rparr>)
             }
         })"

definition Unwatch :: "(nat \<Rightarrow> nat \<Rightarrow> nat) \<Rightarrow> string \<Rightarrow> 'a \<Rightarrow> ('h, 'a) Broadcast_reg
    \<Rightarrow> ('h, 'a) Broadcast_reg option" where
  "Unwatch growcap signal data b =
     (let handle = Some data
      in case map_index (listeners b) signal of
           None \<Rightarrow> Some b
         | Some ls \<Rightarrow> do {
             items \<leftarrow> slice_elems (heap b) (Some ls);
             case first_index (\<lambda>item. item = handle) items of
               None \<Rightarrow> Some b
             | Some i \<Rightarrow> do {
                 front \<leftarrow> (if i \<le> len ls then Some (Slice (base ls) i) else None);
                 back \<leftarrow> reslice items (i + 1) (length items);
                 (s', h') \<leftarrow> append_slice growcap (heap b) (Some front) back;
                 m' \<leftarrow> map_assign (listeners b) signal s';
                 Some (b\<lparr>listeners := m', heap := h'\<rparr>)
               }
           })"

definition Clean :: "string \<Rightarrow> ('h, 'a) Broadcast_reg \<Rightarrow> ('h, 'a) Broadcast_reg" where
  "Clean signal b = b\<lparr>listeners := map_delete (listeners b) signal\<rparr>"

definition CleanAll :: "('h, 'a) Broadcast_reg \<Rightarrow> ('h, 'a) Broadcast_reg" where
  "CleanAll b = b\<lparr>listeners := Some Map.empty\<rparr>"

definition HasWatch :: "string \<Rightarrow> ('h, 'a) Broadcast_reg \<Rightarrow> bool" where
  "HasWatch signal b =
     (case map_entries (listeners b) signal of
        None \<Rightarrow> False
      | Some ls \<Rightarrow> len ls > 0)"

definition WatchCount :: "string \<Rightarrow> ('h, 'a) Broadcast_reg \<Rightarrow> int" where
  "WatchCount signal b = int (slice_len (map_index (listeners b) signal))"

definition Range :: "'v visitor \<Rightarrow> string list \<Rightarrow> ('h, 'a) Broadcast_reg \<Rightarrow> 'v
    \<Rightarrow> (string \<times> int \<times> bool) list \<times> 'v" where
  "Range fn order b v = range_map fn (map_option len \<circ> map_entries (listeners b)) order v"

text \<open>
  \<open>Broadcast\<close> reads the slice of the signal and the handlers under the read lock and
  then ranges over them. A \<open>range\<close> over a slice fixes the length when the loop starts
  and reads element \<open>j\<close> from the array in iteration \<open>j\<close>; the array is the one the
  registry keeps using, so each read is from the heap of the current world.
  \<^verbatim>\<open>
  func (b *Broadcast[T]) Broadcast(signal string) {
      b.mu.RLock()
      listeners := b.listeners[signal]
      handlers := b.handlers
      b.mu.RUnlock()
      for _, handler := range handlers {
          for _, data := range listeners {
              _ = handler(signal, data.Value())
          }
      }
  }
  \<close>
\<close>

primrec each_listener :: "('h, 'a, ('h, 'a) Broadcast_reg \<times> 'u) invoke \<Rightarrow> string \<Rightarrow> 'h
    \<Rightarrow> slice option \<Rightarrow> nat list \<Rightarrow> ('h, 'a) Broadcast_reg \<times> 'u
    \<Rightarrow> (('h \<times> 'a) list \<times> (('h, 'a) Broadcast_reg \<times> 'u)) option" where
  "each_listener call signal handler ls [] w = Some ([], w)"
| "each_listener call signal handler ls (j # rest) w =
     do {
       item \<leftarrow> slice_index (heap (fst w)) ls j;
       data \<leftarrow> item;
       let (err, w') = call handler signal data w;
       (calls, w'') \<leftarrow> each_listener call signal handler ls rest w';
       Some ((handler, data) # calls, w'')
     }"

primrec each_handler :: "('h, 'a, ('h, 'a) Broadcast_reg \<times> 'u) invoke \<Rightarrow> string \<Rightarrow> 'h list
    \<Rightarrow> slice option \<Rightarrow> ('h, 'a) Broadcast_reg \<times> 'u
    \<Rightarrow> (('h \<times> 'a) list \<times> (('h, 'a) Broadcast_reg \<times> 'u)) option" where
  "each_handler call signal [] ls w = Some ([], w)"
| "each_handler call signal (handler # rest) ls w =
     do {
       (calls, w') \<leftarrow> each_listener call signal handler ls [0..<slice_len ls] w;
       (calls', w'') \<leftarrow> each_handler call signal rest ls w';
       Some (calls @ calls', w'')
     }"

definition Broadcast :: "('h, 'a, ('h, 'a) Broadcast_reg \<times> 'u) invoke \<Rightarrow> string
    \<Rightarrow> ('h, 'a) Broadcast_reg \<times> 'u
    \<Rightarrow> (('h \<times> 'a) list \<times> (('h, 'a) Broadcast_reg \<times> 'u)) option" where
  "Broadcast call signal w =
     (let b = fst w;
          ls = map_index (listeners b) signal;
          hs = elems (handlers b)
      in each_handler call signal hs ls w)"

text \<open>
  The operations that change a \<open>Broadcast[T]\<close>, and sequences of them, as for the keyed
  registry. \<open>entries\<close> reads the listeners of a signal back from the store.
\<close>

datatype ('h, 'a) call =
  CallHandle 'h
| CallWatch string 'a
| CallUnwatch string 'a
| CallClean string
| CallCleanAll

fun apply_call :: "(nat \<Rightarrow> nat \<Rightarrow> nat) \<Rightarrow> ('h, 'a) call \<Rightarrow> ('h, 'a) Broadcast_reg
    \<Rightarrow> ('h, 'a) Broadcast_reg option" where
  "apply_call growcap (CallHandle handler) b = Some (Handle handler b)"
| "apply_call growcap (CallWatch signal data) b = Watch growcap signal data b"
| "apply_call growcap (CallUnwatch signal data) b = Unwatch growcap signal data b"
| "apply_call growcap (CallClean signal) b = Some (Clean signal b)"
| "apply_call growcap CallCleanAll b = Some (CleanAll b)"

fun apply_all :: "(nat \<Rightarrow> nat \<Rightarrow> nat) \<Rightarrow> ('h, 'a) call list \<Rightarrow> ('h, 'a) Broadcast_reg
    \<Rightarrow> ('h, 'a) Broadcast_reg option" where
  "apply_all growcap [] b = Some b"
| "apply_all growcap (c # cs) b =
     (case apply_call growcap c b of None \<Rightarrow> None | Some b' \<Rightarrow> apply_all growcap cs b')"

definition initial :: "('h, 'a) Broadcast_reg \<Rightarrow> bool" where
  "initial b \<longleftrightarrow> b = New \<or> b = Zero"

definition entries :: "string \<Rightarrow> ('h, 'a) Broadcast_reg \<Rightarrow> 'a option list" where
  \<comment> \<open>the handles registered under a signal, in insertion order\<close>
  "entries signal b =
     (case map_index (listeners b) signal of
        None \<Rightarrow> []
      | Some s \<Rightarrow> take (len s) (heap b ! base s))"

text \<open>
  The invariant of the store. A slice is live when its array is allocated, its length is
  within the array and every element below its length is a handle that \<open>unique.Make\<close>
  returned. A registry is well formed when every stored slice is live and no two signals
  share an array.
\<close>

definition live :: "'a heap \<Rightarrow> slice \<Rightarrow> bool" where
  "live h s \<longleftrightarrow>
     base s < length h \<and> len s \<le> length (h ! base s) \<and> None \<notin> set (take (len s) (h ! base s))"

definition wf :: "('h, 'a) Broadcast_reg \<Rightarrow> bool" where
  "wf b \<longleftrightarrow>
     (\<forall>s sl. map_index (listeners b) s = Some sl \<longrightarrow> live (heap b) sl)
     \<and> (\<forall>s s' sl sl'. map_index (listeners b) s = Some sl \<and> map_index (listeners b) s' = Some sl'
            \<and> base sl = base sl' \<longrightarrow> s = s')"

definition slot_elems :: "'a heap \<Rightarrow> slice option \<Rightarrow> 'a option list" where
  "slot_elems h slot = (case slot of None \<Rightarrow> [] | Some sl \<Rightarrow> take (len sl) (h ! base sl))"

definition slot_live :: "'a heap \<Rightarrow> slice option \<Rightarrow> bool" where
  "slot_live h slot = (case slot of None \<Rightarrow> True | Some sl \<Rightarrow> live h sl)"

text \<open>
  A handler can reach the registry through its operations only (the fields are not
  exported). \<open>reentrant\<close> says so of \<open>call\<close>: whatever an invocation does to the
  registry is what some sequence of calls does.
\<close>

definition reentrant :: "(nat \<Rightarrow> nat \<Rightarrow> nat) \<Rightarrow> ('h, 'a, ('h, 'a) Broadcast_reg \<times> 'u) invoke \<Rightarrow> bool" where
  "reentrant growcap call \<longleftrightarrow>
     (\<forall>h s x w. \<exists>cs. apply_all growcap cs (fst w) = Some (fst (snd (call h s x w))))"

text \<open>
  A scenario used below: a runtime that doubles the capacity when \<open>append\<close> allocates
  (what Go does for small slices), and a handler that unregisters the payload it is handed,
  in the way of a listener that wants to be notified once.
\<close>

definition double_cap :: "nat \<Rightarrow> nat \<Rightarrow> nat" where
  "double_cap old need = 2 * old"

definition unwatch_own :: "('h, string, ('h, string) Broadcast_reg \<times> unit) invoke" where
  "unwatch_own handler signal data w =
     (case Unwatch double_cap signal data (fst w) of
        None \<Rightarrow> (True, w)
      | Some b' \<Rightarrow> (False, (b', snd w)))"

definition uunwatch_own :: "('h, string, ('h, string, string) UniqueBroadcast \<times> unit) invoke" where
  "uunwatch_own handler signal data w =
     (case UUnwatch signal (Uniquer data data) (fst w) of
        None \<Rightarrow> (True, w)
      | Some b' \<Rightarrow> (False, (b', snd w)))"

section \<open>Loops, maps and slices\<close>

lemma first_index_None: "first_index P xs = None \<longleftrightarrow> (\<forall>x\<in>set xs. \<not> P x)"
  by (induction xs) auto

lemma first_index_Some:
  "first_index P xs = Some i \<Longrightarrow> i < length xs \<and> P (xs ! i) \<and> (\<forall>j<i. \<not> P (xs ! j))"
proof (induction xs arbitrary: i)
  case Nil
  then show ?case by simp
next
  case (Cons x xs)
  show ?case
  proof (cases "P x")
    case True
    with Cons.prems show ?thesis by simp
  next
    case False
    with Cons.prems obtain k where k: "first_index P xs = Some k" "i = Suc k"
      by auto
    from Cons.IH [OF k(1)] False k(2) show ?thesis
      by (auto simp: nth_Cons split: nat.splits)
  qed
qed

lemma first_index_remove1:
  "first_index (\<lambda>y. y = x) xs = Some i \<Longrightarrow> take i xs @ drop (Suc i) xs = remove1 x xs"
proof (induction xs arbitrary: i)
  case Nil
  then show ?case by simp
next
  case (Cons y ys)
  then show ?case by (auto split: if_splits)
qed

lemma map_index_lazy: "map_index (lazy_map m) s = map_index m s"
  by (simp add: map_index_def lazy_map_def split: option.splits)

lemma map_entries_index: "map_entries m s = map_index m s"
  by (simp add: map_entries_def map_index_def split: option.splits)

lemma UWatch_eq:
  "UWatch s d b =
     Some (b\<lparr>ulisteners :=
        (if Unique d \<in> set (ukeys s b) then lazy_map (ulisteners b)
         else Some ((map_entries (ulisteners b))(s \<mapsto> elems (map_index (ulisteners b) s) @ [d])))\<rparr>)"
proof (cases "first_index (\<lambda>l. Unique l = Unique d) (elems (map_index (ulisteners b) s))")
  case None
  then have "Unique d \<notin> set (ukeys s b)"
    by (auto simp: first_index_None ukeys_def uentries_def)
  moreover have "map_assign (lazy_map (ulisteners b)) s v = Some (Some ((map_entries (ulisteners b))(s \<mapsto> v)))" for v
    by (cases "ulisteners b") (simp_all add: map_assign_def lazy_map_def map_entries_def)
  ultimately show ?thesis using None
    by (simp add: UWatch_def Let_def map_index_lazy)
next
  case (Some i)
  have "first_index (\<lambda>l. Unique l = Unique d) (elems (map_index (ulisteners b) s)) \<noteq> None"
    using Some by simp
  then have "Unique d \<in> set (ukeys s b)"
    unfolding first_index_None ukeys_def uentries_def by (force simp: image_iff)
  with Some show ?thesis
    by (simp add: UWatch_def Let_def map_index_lazy)
qed

lemma UUnwatch_eq:
  "UUnwatch s d b =
     Some (case first_index (\<lambda>item. Unique item = Unique d) (elems (map_index (ulisteners b) s)) of
             None \<Rightarrow> b
           | Some i \<Rightarrow> b\<lparr>ulisteners := Some ((map_entries (ulisteners b))
                 (s \<mapsto> take i (elems (map_index (ulisteners b) s))
                        @ drop (Suc i) (elems (map_index (ulisteners b) s))))\<rparr>)"
proof (cases "map_index (ulisteners b) s")
  case None
  then show ?thesis by (simp add: UUnwatch_def elems_def)
next
  case (Some ls)
  show ?thesis
  proof (cases "first_index (\<lambda>item. Unique item = Unique d) ls")
    case None
    with Some show ?thesis by (simp add: UUnwatch_def elems_def)
  next
    case (Some i)
    from first_index_Some [OF Some] have i: "i < length ls" by simp
    from \<open>map_index (ulisteners b) s = Some ls\<close> obtain f where f: "ulisteners b = Some f"
      by (auto simp: map_index_def split: option.splits)
    from i Some \<open>map_index (ulisteners b) s = Some ls\<close> f show ?thesis
      by (simp add: UUnwatch_def elems_def reslice_def map_assign_def map_entries_def)
  qed
qed


lemma ueach_listener_calls:
  "fst (ueach_listener call s h ds w) = map (\<lambda>d. (h, Value d)) ds"
  by (induction ds arbitrary: w) (simp_all add: Let_def split_beta)

lemma ueach_handler_calls:
  "fst (ueach_handler call s hs ds w) = concat (map (\<lambda>h. map (\<lambda>d. (h, Value d)) ds) hs)"
proof (induction hs arbitrary: w)
  case Nil
  then show ?case by simp
next
  case (Cons h hs)
  obtain c1 w1 where e1: "ueach_listener call s h ds w = (c1, w1)" by (cases "ueach_listener call s h ds w")
  obtain c2 w2 where e2: "ueach_handler call s hs ds w1 = (c2, w2)" by (cases "ueach_handler call s hs ds w1")
  from ueach_listener_calls [of call s h ds w] e1 have "c1 = map (\<lambda>d. (h, Value d)) ds" by simp
  moreover from Cons.IH [of w1] e2 have "c2 = concat (map (\<lambda>h. map (\<lambda>d. (h, Value d)) ds) hs)" by simp
  ultimately show ?case using e1 e2 by simp
qed

lemma UBroadcast_calls:
  "fst (UBroadcast call s (b, u)) =
     concat (map (\<lambda>h. map (\<lambda>d. (h, Value d)) (uentries s b)) (elems (uhandlers b)))"
  by (simp add: UBroadcast_def Let_def ueach_handler_calls uentries_def)

section \<open>The store of the direct registry\<close>

lemma live_append:
  "live h t \<Longrightarrow> live (h @ [arr]) t"
  by (auto simp: live_def nth_append)

lemma live_update_other:
  "live h t \<Longrightarrow> base t \<noteq> a \<Longrightarrow> live (h[a := arr]) t"
  by (auto simp: live_def)

lemma nth_splice:
  assumes "n + length xs \<le> length old" and "j < length old"
  shows "(take n old @ xs @ drop (n + length xs) old) ! j =
           (if j < n then old ! j else if j < n + length xs then xs ! (j - n) else old ! j)"
  using assms by (auto simp: nth_append)

lemma None_notin_take_iff:
  "None \<notin> set (take L ys) \<longleftrightarrow> (\<forall>j. j < L \<and> j < length ys \<longrightarrow> ys ! j \<noteq> None)"
proof -
  have "None \<in> set (take L ys) \<longleftrightarrow> (\<exists>j<length (take L ys). take L ys ! j = None)"
    by (simp only: in_set_conv_nth)
  also have "\<dots> \<longleftrightarrow> (\<exists>j. j < L \<and> j < length ys \<and> ys ! j = None)"
    by auto
  finally show ?thesis by auto
qed

lemma live_splice:
  assumes t: "live h t" and n: "n + length xs \<le> length (h ! a)" and xs: "None \<notin> set xs"
  shows "live (h[a := take n (h ! a) @ xs @ drop (n + length xs) (h ! a)]) t"
proof (cases "base t = a")
  case False
  with t show ?thesis by (simp add: live_update_other)
next
  case True
  let ?new = "take n (h ! a) @ xs @ drop (n + length xs) (h ! a)"
  have len: "length ?new = length (h ! a)"
    using n by simp
  have old: "\<forall>j. j < len t \<and> j < length (h ! a) \<longrightarrow> (h ! a) ! j \<noteq> None"
    using t True by (simp add: live_def None_notin_take_iff)
  have "?new ! j \<noteq> None" if j: "j < len t" "j < length (h ! a)" for j
  proof -
    have "xs ! (j - n) \<noteq> None" if "n \<le> j" "j < n + length xs"
    proof -
      from that have "j - n < length xs" by linarith
      with xs show ?thesis by (metis nth_mem)
    qed
    with old j n show ?thesis
      by (simp add: nth_splice)
  qed
  then have "None \<notin> set (take (len t) ?new)"
    unfolding None_notin_take_iff len by blast
  with t True len show ?thesis
    by (simp add: live_def)
qed


lemma append_slice_live:
  assumes slot: "slot_live h slot" and xs: "None \<notin> set xs"
  shows "\<exists>sl' h'. append_slice gc h slot xs = Some (sl', h')
      \<and> live h' sl'
      \<and> take (len sl') (h' ! base sl') = slot_elems h slot @ xs
      \<and> (\<forall>t. live h t \<longrightarrow> live h' t)
      \<and> ((\<exists>sl. slot = Some sl \<and> base sl' = base sl) \<or> base sl' = length h)
      \<and> (\<forall>t. live h t \<and> base t \<noteq> base sl' \<longrightarrow> take (len t) (h' ! base t) = take (len t) (h ! base t))
      \<and> length h \<le> length h'"
proof (cases slot)
  case None
  let ?arr = "xs @ replicate (newcap gc 0 (length xs) - length xs) None"
  have "append_slice gc h slot xs = Some (Slice (length h) (length xs), h @ [?arr])"
    using None by (simp add: append_slice_def)
  moreover have "live (h @ [?arr]) (Slice (length h) (length xs))"
    using xs by (simp add: live_def)
  moreover have "live (h @ [?arr]) t" if "live h t" for t
    using that by (rule live_append)
  moreover have "take (len t) ((h @ [?arr]) ! base t) = take (len t) (h ! base t)" if "live h t" for t
    using that by (simp add: live_def nth_append)
  ultimately show ?thesis using None
    by (simp add: slot_elems_def)
next
  case (Some sl)
  with slot have l: "live h sl" by (simp add: slot_live_def)
  then have b: "base sl < length h" "len sl \<le> length (h ! base sl)"
    and nn: "None \<notin> set (take (len sl) (h ! base sl))"
    by (simp_all add: live_def)
  let ?old = "h ! base sl" and ?need = "len sl + length xs"
  show ?thesis
  proof (cases "?need \<le> length ?old")
    case True
    let ?new = "take (len sl) ?old @ xs @ drop ?need ?old"
    let ?h' = "h[base sl := ?new]"
    have a: "append_slice gc h slot xs = Some (Slice (base sl) ?need, ?h')"
      using Some b True by (simp add: append_slice_def Let_def)
    have stable: "live ?h' t" if "live h t" for t
      using that True xs by (rule live_splice)
    have tk: "take ?need ?new = take (len sl) ?old @ xs"
      using b by simp
    have "live ?h' (Slice (base sl) ?need)"
      using b True nn xs tk by (simp add: live_def)
    moreover have "take (len t) (?h' ! base t) = take (len t) (h ! base t)" if "base t \<noteq> base sl" for t
      using that by simp
    ultimately show ?thesis using a Some stable b tk
      by (simp add: slot_elems_def)
  next
    case False
    let ?arr = "take (len sl) ?old @ xs @ replicate (newcap gc (length ?old) ?need - ?need) None"
    have a: "append_slice gc h slot xs = Some (Slice (length h) ?need, h @ [?arr])"
      using Some b False by (simp add: append_slice_def Let_def)
    have "live (h @ [?arr]) (Slice (length h) ?need)"
      using b nn xs by (simp add: live_def)
    moreover have "live (h @ [?arr]) t" if "live h t" for t
      using that by (rule live_append)
    moreover have "take (len t) ((h @ [?arr]) ! base t) = take (len t) (h ! base t)" if "live h t" for t
      using that by (simp add: live_def nth_append)
    ultimately show ?thesis using a Some b
      by (simp add: slot_elems_def)
  qed
qed


lemma map_index_assigned:
  "map_index (Some ((map_entries m)(s \<mapsto> v))) s' = (if s' = s then Some v else map_index m s')"
  by (simp add: map_index_def map_entries_def split: option.splits)

lemma entries_slot: "entries s b = slot_elems (heap b) (map_index (listeners b) s)"
  by (simp add: entries_def slot_elems_def)

lemma wf_slot_live: "wf b \<Longrightarrow> slot_live (heap b) (map_index (listeners b) s)"
  by (auto simp: wf_def slot_live_def split: option.splits)

lemma wf_slice_elems: "wf b \<Longrightarrow> slice_elems (heap b) (map_index (listeners b) s) = Some (entries s b)"
  by (auto simp: wf_def live_def slice_elems_def entries_def split: option.splits)

lemma wf_entries_Some: "wf b \<Longrightarrow> None \<notin> set (entries s b)"
  by (auto simp: wf_def live_def entries_def split: option.splits)

lemma wf_slice_len: "wf b \<Longrightarrow> slice_len (map_index (listeners b) s) = length (entries s b)"
  by (auto simp: wf_def live_def entries_def slice_len_def split: option.splits)

lemma wf_assign:
  assumes wf: "wf b" and l: "live h' sl'" and st: "\<forall>t. live (heap b) t \<longrightarrow> live h' t"
    and fr: "(\<exists>sl0. map_index (listeners b) s = Some sl0 \<and> base sl' = base sl0) \<or> base sl' = length (heap b)"
    and same: "\<forall>t. live (heap b) t \<and> base t \<noteq> base sl' \<longrightarrow> take (len t) (h' ! base t) = take (len t) (heap b ! base t)"
  shows "wf (b\<lparr>listeners := Some ((map_entries (listeners b))(s \<mapsto> sl')), heap := h'\<rparr>)"
    and "s' \<noteq> s \<Longrightarrow> entries s' (b\<lparr>listeners := Some ((map_entries (listeners b))(s \<mapsto> sl')), heap := h'\<rparr>) = entries s' b"
proof -
  have other: "base t \<noteq> base sl'" if "map_index (listeners b) s1 = Some t" "s1 \<noteq> s" for s1 t
  proof
    assume eq: "base t = base sl'"
    from wf that(1) have lt: "live (heap b) t" by (auto simp: wf_def)
    from fr show False
    proof
      assume "\<exists>sl0. map_index (listeners b) s = Some sl0 \<and> base sl' = base sl0"
      then obtain sl0 where "map_index (listeners b) s = Some sl0" "base sl' = base sl0" by blast
      with wf that eq show False unfolding wf_def by metis
    next
      assume "base sl' = length (heap b)"
      with lt eq show False by (simp add: live_def)
    qed
  qed
  show "wf (b\<lparr>listeners := Some ((map_entries (listeners b))(s \<mapsto> sl')), heap := h'\<rparr>)"
    unfolding wf_def
  proof (intro conjI allI impI)
    fix s1 t assume "map_index (listeners (b\<lparr>listeners := Some ((map_entries (listeners b))(s \<mapsto> sl')), heap := h'\<rparr>)) s1 = Some t"
    then have "(s1 = s \<and> t = sl') \<or> (s1 \<noteq> s \<and> map_index (listeners b) s1 = Some t)"
      by (simp add: map_index_assigned split: if_splits)
    with l st wf show "live (heap (b\<lparr>listeners := Some ((map_entries (listeners b))(s \<mapsto> sl')), heap := h'\<rparr>)) t"
      by (auto simp: wf_def)
  next
    fix s1 s2 t1 t2
    assume "map_index (listeners (b\<lparr>listeners := Some ((map_entries (listeners b))(s \<mapsto> sl')), heap := h'\<rparr>)) s1 = Some t1
       \<and> map_index (listeners (b\<lparr>listeners := Some ((map_entries (listeners b))(s \<mapsto> sl')), heap := h'\<rparr>)) s2 = Some t2
       \<and> base t1 = base t2"
    then have c1: "(s1 = s \<and> t1 = sl') \<or> (s1 \<noteq> s \<and> map_index (listeners b) s1 = Some t1)"
      and c2: "(s2 = s \<and> t2 = sl') \<or> (s2 \<noteq> s \<and> map_index (listeners b) s2 = Some t2)"
      and eq: "base t1 = base t2"
      by (auto simp: map_index_assigned split: if_splits)
    from c1 c2 eq other wf show "s1 = s2"
      unfolding wf_def by metis
  qed
  show "entries s' (b\<lparr>listeners := Some ((map_entries (listeners b))(s \<mapsto> sl')), heap := h'\<rparr>) = entries s' b" if "s' \<noteq> s"
  proof (cases "map_index (listeners b) s'")
    case None
    with that show ?thesis by (simp add: entries_def map_index_assigned)
  next
    case (Some t)
    from other [OF Some that] wf Some same
    have "take (len t) (h' ! base t) = take (len t) (heap b ! base t)"
      by (auto simp: wf_def)
    with Some that show ?thesis by (simp add: entries_def map_index_assigned)
  qed
qed


lemma first_index_mem: "first_index (\<lambda>y. y = x) xs = None \<longleftrightarrow> x \<notin> set xs"
  by (auto simp: first_index_None)

lemma map_assign_lazy_eq:
  "map_assign (lazy_map m) s v = Some (Some ((map_entries m)(s \<mapsto> v)))"
  by (cases m) (simp_all add: map_assign_def lazy_map_def map_entries_def)

lemma map_assign_present:
  "map_index m s' = Some t \<Longrightarrow> map_assign m s v = Some (Some ((map_entries m)(s \<mapsto> v)))"
  by (cases m) (simp_all add: map_assign_def map_index_def map_entries_def)

lemma entries_nonempty_present: "y \<in> set (entries s b) \<Longrightarrow> \<exists>f. listeners b = Some f \<and> f s \<noteq> None"
  by (cases "listeners b"; cases "map_index (listeners b) s") (auto simp: entries_def map_index_def)

lemma Watch_dup:
  assumes "wf b" and "Some x \<in> set (entries s b)"
  shows "Watch gc s x b = Some b"
proof -
  from assms(2) obtain i where "first_index (\<lambda>l. l = Some x) (entries s b) = Some i"
    using first_index_mem [of "Some x" "entries s b"] by auto
  moreover from entries_nonempty_present [OF assms(2)] have "lazy_map (listeners b) = listeners b"
    by (auto simp: lazy_map_def)
  ultimately show ?thesis
    using wf_slice_elems [OF assms(1), of s]
    by (simp add: Watch_def Let_def map_index_lazy)
qed

lemma Watch_new:
  assumes "wf b" and "Some x \<notin> set (entries s b)"
    and "append_slice gc (heap b) (map_index (listeners b) s) [Some x] = Some (sl', h')"
  shows "Watch gc s x b = Some (b\<lparr>listeners := Some ((map_entries (listeners b))(s \<mapsto> sl')), heap := h'\<rparr>)"
proof -
  from assms(2) have "first_index (\<lambda>l. l = Some x) (entries s b) = None"
    by (simp add: first_index_mem)
  then show ?thesis
    using wf_slice_elems [OF assms(1), of s] assms(3)
    by (simp add: Watch_def Let_def map_index_lazy map_assign_lazy_eq)
qed

lemma Watch_wf:
  assumes wf: "wf b"
  shows "\<exists>b'. Watch gc s x b = Some b' \<and> wf b' \<and> handlers b' = handlers b
     \<and> entries s b' = (if Some x \<in> set (entries s b) then entries s b else entries s b @ [Some x])
     \<and> (\<forall>s'. s' \<noteq> s \<longrightarrow> entries s' b' = entries s' b)
     \<and> (Some x \<in> set (entries s b) \<longrightarrow> b' = b)
     \<and> (\<forall>t. live (heap b) t \<longrightarrow> live (heap b') t)
     \<and> (\<forall>s'. map_index (listeners b) s' \<noteq> None \<longrightarrow> map_index (listeners b') s' \<noteq> None)
     \<and> map_index (listeners b') s \<noteq> None"
proof (cases "Some x \<in> set (entries s b)")
  case True
  from entries_nonempty_present [OF True] have "map_index (listeners b) s \<noteq> None"
    by (auto simp: map_index_def)
  with Watch_dup [OF wf True, of gc] wf True show ?thesis by simp
next
  case False
  from append_slice_live [OF wf_slot_live [OF wf, of s], of "[Some x]" gc]
  obtain sl' h' where a: "append_slice gc (heap b) (map_index (listeners b) s) [Some x] = Some (sl', h')"
    and l: "live h' sl'"
    and tk: "take (len sl') (h' ! base sl') = entries s b @ [Some x]"
    and st: "\<forall>t. live (heap b) t \<longrightarrow> live h' t"
    and fr: "(\<exists>sl. map_index (listeners b) s = Some sl \<and> base sl' = base sl) \<or> base sl' = length (heap b)"
    and same: "\<forall>t. live (heap b) t \<and> base t \<noteq> base sl' \<longrightarrow> take (len t) (h' ! base t) = take (len t) (heap b ! base t)"
    by (auto simp: entries_slot)
  let ?b' = "b\<lparr>listeners := Some ((map_entries (listeners b))(s \<mapsto> sl')), heap := h'\<rparr>"
  have w: "Watch gc s x b = Some ?b'"
    using wf False a by (rule Watch_new)
  have "wf ?b'" and "\<And>s'. s' \<noteq> s \<Longrightarrow> entries s' ?b' = entries s' b"
    using wf_assign [OF wf l st fr same] by blast+
  moreover have "entries s ?b' = entries s b @ [Some x]"
    using tk by (simp add: entries_def map_index_assigned)
  moreover have "map_index (listeners ?b') s' \<noteq> None" if "map_index (listeners b) s' \<noteq> None" for s'
    using that by (simp add: map_index_assigned)
  moreover have "map_index (listeners ?b') s \<noteq> None"
    by (simp add: map_index_assigned)
  ultimately show ?thesis using w False st by simp
qed

lemma Unwatch_absent:
  assumes "wf b" and "Some x \<notin> set (entries s b)"
  shows "Unwatch gc s x b = Some b"
proof (cases "map_index (listeners b) s")
  case None
  then show ?thesis by (simp add: Unwatch_def)
next
  case (Some ls)
  from assms(2) have "first_index (\<lambda>l. l = Some x) (entries s b) = None"
    by (simp add: first_index_mem)
  with Some wf_slice_elems [OF assms(1), of s] show ?thesis
    by (simp add: Unwatch_def)
qed

lemma Unwatch_found:
  assumes wf: "wf b" and ls: "map_index (listeners b) s = Some ls"
    and i: "first_index (\<lambda>item. item = Some x) (entries s b) = Some i"
    and a: "append_slice gc (heap b) (Some (Slice (base ls) i)) (drop (Suc i) (entries s b)) = Some (sl', h')"
  shows "Unwatch gc s x b = Some (b\<lparr>listeners := Some ((map_entries (listeners b))(s \<mapsto> sl')), heap := h'\<rparr>)"
proof -
  from first_index_Some [OF i] have "i < length (entries s b)" by simp
  moreover from wf_slice_len [OF wf, of s] ls have "length (entries s b) = len ls"
    by (simp add: slice_len_def)
  ultimately have il: "i < len ls" "Suc i \<le> length (entries s b)" by simp_all
  from wf_slice_elems [OF wf, of s] ls have "slice_elems (heap b) (Some ls) = Some (entries s b)"
    by simp
  with ls i il a show ?thesis
    by (simp add: Unwatch_def reslice_def map_assign_present [OF ls])
qed

lemma first_index_found: "x \<in> set xs \<Longrightarrow> \<exists>i. first_index (\<lambda>y. y = x) xs = Some i"
  using first_index_mem [of x xs] by auto

lemma Unwatch_wf:
  assumes wf: "wf b"
  shows "\<exists>b'. Unwatch gc s x b = Some b' \<and> wf b' \<and> handlers b' = handlers b
     \<and> entries s b' = remove1 (Some x) (entries s b)
     \<and> (\<forall>s'. s' \<noteq> s \<longrightarrow> entries s' b' = entries s' b)
     \<and> (Some x \<notin> set (entries s b) \<longrightarrow> b' = b)
     \<and> (\<forall>t. live (heap b) t \<longrightarrow> live (heap b') t)
     \<and> (\<forall>s'. map_index (listeners b') s' = None \<longleftrightarrow> map_index (listeners b) s' = None)"
proof (cases "Some x \<in> set (entries s b)")
  case False
  with Unwatch_absent [OF wf False, of gc] wf show ?thesis
    by (simp add: remove1_idem)
next
  case True
  then obtain i where i: "first_index (\<lambda>item. item = Some x) (entries s b) = Some i"
    using first_index_found by fastforce
  from True obtain ls where ls: "map_index (listeners b) s = Some ls"
    by (cases "map_index (listeners b) s") (auto simp: entries_def)
  from wf ls have lv: "live (heap b) ls" by (auto simp: wf_def)
  from first_index_Some [OF i] have il: "i < length (entries s b)" by simp
  with ls have il': "i < len ls" by (simp add: entries_def)
  have front: "slot_live (heap b) (Some (Slice (base ls) i))"
    using lv il' by (auto simp: slot_live_def live_def None_notin_take_iff)
  have rest: "None \<notin> set (drop (Suc i) (entries s b))"
    using wf_entries_Some [OF wf, of s] by (meson in_set_dropD)
  from append_slice_live [OF front rest, of gc]
  obtain sl' h' where a: "append_slice gc (heap b) (Some (Slice (base ls) i)) (drop (Suc i) (entries s b)) = Some (sl', h')"
    and l: "live h' sl'"
    and tk: "take (len sl') (h' ! base sl') = slot_elems (heap b) (Some (Slice (base ls) i)) @ drop (Suc i) (entries s b)"
    and st: "\<forall>t. live (heap b) t \<longrightarrow> live h' t"
    and fr: "base sl' = base ls \<or> base sl' = length (heap b)"
    and same: "\<forall>t. live (heap b) t \<and> base t \<noteq> base sl' \<longrightarrow> take (len t) (h' ! base t) = take (len t) (heap b ! base t)"
    by auto
  let ?b' = "b\<lparr>listeners := Some ((map_entries (listeners b))(s \<mapsto> sl')), heap := h'\<rparr>"
  have u: "Unwatch gc s x b = Some ?b'"
    using wf ls i a by (rule Unwatch_found)
  from fr ls have fr': "(\<exists>sl0. map_index (listeners b) s = Some sl0 \<and> base sl' = base sl0) \<or> base sl' = length (heap b)"
    by auto
  have "wf ?b'" and "\<And>s'. s' \<noteq> s \<Longrightarrow> entries s' ?b' = entries s' b"
    using wf_assign [OF wf l st fr' same] by blast+
  moreover have "slot_elems (heap b) (Some (Slice (base ls) i)) = take i (entries s b)"
    using ls il' by (simp add: slot_elems_def entries_def min_def)
  then have "entries s ?b' = remove1 (Some x) (entries s b)"
    using tk first_index_remove1 [OF i] by (simp add: entries_def map_index_assigned)
  moreover have "map_index (listeners ?b') s' = None \<longleftrightarrow> map_index (listeners b) s' = None" for s'
    using ls by (simp add: map_index_assigned)
  ultimately show ?thesis using u True st by simp
qed

lemma map_index_deleted:
  "map_index (map_delete m s) s' = (if s' = s then None else map_index m s')"
  by (simp add: map_index_def map_delete_def split: option.splits)

lemma entries_Clean: "entries s' (Clean s b) = (if s' = s then [] else entries s' b)"
  by (simp add: entries_def Clean_def map_index_deleted split: option.splits)

lemma entries_CleanAll: "entries s' (CleanAll b) = []"
  by (simp add: entries_def CleanAll_def map_index_def)

lemma entries_Handle: "entries s' (Handle h b) = entries s' b"
  by (simp add: entries_def Handle_def split: option.splits)

lemma wf_Clean: "wf b \<Longrightarrow> wf (Clean s b)"
  unfolding wf_def by (simp add: Clean_def map_index_deleted split: if_splits)

lemma wf_CleanAll: "wf (CleanAll b)"
  by (simp add: wf_def CleanAll_def map_index_def)

lemma wf_Handle: "wf b \<Longrightarrow> wf (Handle h b)"
  by (simp add: wf_def Handle_def)

lemma wf_initial: "initial b \<Longrightarrow> wf b"
  by (auto simp: initial_def wf_def New_def Zero_def map_index_def)

lemma apply_call_wf:
  assumes "wf b"
  shows "\<exists>b'. apply_call gc c b = Some b' \<and> wf b'
      \<and> (\<forall>t. live (heap b) t \<longrightarrow> live (heap b') t)
      \<and> (\<exists>more. elems (handlers b') = elems (handlers b) @ more)
      \<and> ((\<forall>s. distinct (entries s b)) \<longrightarrow> (\<forall>s. distinct (entries s b')))"
proof (cases c)
  case (CallHandle h)
  with assms show ?thesis
    by (simp add: wf_Handle entries_Handle) (simp add: Handle_def elems_def)
next
  case (CallWatch s x)
  from Watch_wf [OF assms, of gc s x] obtain b' where
    b': "Watch gc s x b = Some b'" "wf b'" "handlers b' = handlers b"
      "entries s b' = (if Some x \<in> set (entries s b) then entries s b else entries s b @ [Some x])"
      "\<forall>s'. s' \<noteq> s \<longrightarrow> entries s' b' = entries s' b"
      "\<forall>t. live (heap b) t \<longrightarrow> live (heap b') t"
    by blast
  have "distinct (entries s' b')" if "\<forall>s. distinct (entries s b)" for s'
    using that b'(4,5) by (cases "s' = s") auto
  with CallWatch b' show ?thesis by simp
next
  case (CallUnwatch s x)
  from Unwatch_wf [OF assms, of gc s x] obtain b' where
    b': "Unwatch gc s x b = Some b'" "wf b'" "handlers b' = handlers b"
      "entries s b' = remove1 (Some x) (entries s b)"
      "\<forall>s'. s' \<noteq> s \<longrightarrow> entries s' b' = entries s' b"
      "\<forall>t. live (heap b) t \<longrightarrow> live (heap b') t"
    by blast
  have "distinct (entries s' b')" if "\<forall>s. distinct (entries s b)" for s'
    using that b'(4,5) by (cases "s' = s") auto
  with CallUnwatch b' show ?thesis by simp
next
  case (CallClean s)
  with assms show ?thesis
    by (simp add: wf_Clean entries_Clean) (simp add: Clean_def)
next
  case CallCleanAll
  with assms show ?thesis
    by (simp add: wf_CleanAll entries_CleanAll) (simp add: CleanAll_def)
qed

lemma apply_all_wf:
  assumes "wf b"
  shows "\<exists>b'. apply_all gc cs b = Some b' \<and> wf b'
      \<and> (\<forall>t. live (heap b) t \<longrightarrow> live (heap b') t)
      \<and> (\<exists>more. elems (handlers b') = elems (handlers b) @ more)
      \<and> ((\<forall>s. distinct (entries s b)) \<longrightarrow> (\<forall>s. distinct (entries s b')))"
  using assms
proof (induction cs arbitrary: b)
  case Nil
  then show ?case by simp
next
  case (Cons c cs)
  from apply_call_wf [OF Cons.prems, of gc c] obtain b1 where
    b1: "apply_call gc c b = Some b1" "wf b1" "\<forall>t. live (heap b) t \<longrightarrow> live (heap b1) t"
      "\<exists>more. elems (handlers b1) = elems (handlers b) @ more"
      "(\<forall>s. distinct (entries s b)) \<longrightarrow> (\<forall>s. distinct (entries s b1))"
    by blast
  from Cons.IH [OF b1(2)] obtain b2 where
    b2: "apply_all gc cs b1 = Some b2" "wf b2" "\<forall>t. live (heap b1) t \<longrightarrow> live (heap b2) t"
      "\<exists>more. elems (handlers b2) = elems (handlers b1) @ more"
      "(\<forall>s. distinct (entries s b1)) \<longrightarrow> (\<forall>s. distinct (entries s b2))"
    by blast
  from b1(4) b2(4) have "\<exists>more. elems (handlers b2) = elems (handlers b) @ more" by auto
  with b1 b2 show ?case by simp
qed

lemma entries_initial: "initial b \<Longrightarrow> entries s b = []"
  by (auto simp: initial_def entries_def New_def Zero_def map_index_def)

lemma reachable_wf:
  assumes "initial b0" and "apply_all gc cs b0 = Some b"
  shows "wf b" and "distinct (entries s b)"
  using apply_all_wf [OF wf_initial [OF assms(1)], of gc cs] assms
  by (auto simp: entries_initial)

lemma apply_all_append:
  "apply_all gc (cs @ ds) b = (case apply_all gc cs b of None \<Rightarrow> None | Some b' \<Rightarrow> apply_all gc ds b')"
  by (induction cs arbitrary: b) (auto split: option.splits)

lemma slice_index_live:
  assumes "slot_live h ls" and "j < slice_len ls"
  shows "\<exists>x. slice_index h ls j = Some (Some x) \<and> slot_elems h ls ! j = Some x"
proof (cases ls)
  case None
  with assms(2) show ?thesis by (simp add: slice_len_def)
next
  case (Some sl)
  with assms have l: "live h sl" and j: "j < len sl"
    by (simp_all add: slot_live_def slice_len_def)
  then have "h ! base sl ! j \<noteq> None"
    by (simp add: live_def None_notin_take_iff)
  with l j Some show ?thesis
    by (auto simp: slice_index_def live_def slot_elems_def)
qed

lemma slot_live_stable:
  "slot_live h ls \<Longrightarrow> \<forall>t. live h t \<longrightarrow> live h' t \<Longrightarrow> slot_live h' ls"
  by (auto simp: slot_live_def split: option.splits)

lemma each_listener_ok:
  assumes re: "reentrant gc call"
  shows "wf (fst w) \<Longrightarrow> slot_live (heap (fst w)) ls \<Longrightarrow> \<forall>j\<in>set js. j < slice_len ls \<Longrightarrow>
     \<exists>t w'. each_listener call s h ls js w = Some (t, w') \<and> length t = length js
        \<and> map fst t = replicate (length js) h
        \<and> wf (fst w') \<and> slot_live (heap (fst w')) ls
        \<and> (\<exists>cs. apply_all gc cs (fst w) = Some (fst w'))"
proof (induction js arbitrary: w)
  case Nil
  have "apply_all gc [] (fst w) = Some (fst w)" by simp
  then have "\<exists>cs. apply_all gc cs (fst w) = Some (fst w)" by blast
  with Nil show ?case by simp
next
  case (Cons j js)
  from Cons.prems have "j < slice_len ls" by simp
  from slice_index_live [OF Cons.prems(2) this] obtain x where
    x: "slice_index (heap (fst w)) ls j = Some (Some x)" by blast
  obtain err w1 where c: "call h s x w = (err, w1)" by (cases "call h s x w")
  from re c obtain cs where cs: "apply_all gc cs (fst w) = Some (fst w1)"
    unfolding reentrant_def by (metis snd_conv)
  from apply_all_wf [OF Cons.prems(1), of gc cs] cs
  have w1: "wf (fst w1)" and st: "\<forall>t. live (heap (fst w)) t \<longrightarrow> live (heap (fst w1)) t"
    by auto
  from slot_live_stable [OF Cons.prems(2) st] have l1: "slot_live (heap (fst w1)) ls" .
  from Cons.prems(3) have "\<forall>j\<in>set js. j < slice_len ls" by simp
  from Cons.IH [OF w1 l1 this] obtain t w' ds where
    r: "each_listener call s h ls js w1 = Some (t, w')" "length t = length js"
      "map fst t = replicate (length js) h" "wf (fst w')" "slot_live (heap (fst w')) ls"
      "apply_all gc ds (fst w1) = Some (fst w')"
    by blast
  from cs r(6) have "apply_all gc (cs @ ds) (fst w) = Some (fst w')"
    by (simp add: apply_all_append)
  then have "\<exists>cs. apply_all gc cs (fst w) = Some (fst w')" by blast
  with x c r show ?case by simp
qed

lemma each_handler_ok:
  assumes re: "reentrant gc call"
  shows "wf (fst w) \<Longrightarrow> slot_live (heap (fst w)) ls \<Longrightarrow>
     \<exists>t w'. each_handler call s hs ls w = Some (t, w')
        \<and> length t = length hs * slice_len ls
        \<and> map fst t = concat (map (replicate (slice_len ls)) hs)
        \<and> wf (fst w') \<and> slot_live (heap (fst w')) ls
        \<and> (\<exists>cs. apply_all gc cs (fst w) = Some (fst w'))"
proof (induction hs arbitrary: w)
  case Nil
  have "apply_all gc [] (fst w) = Some (fst w)" by simp
  then have "\<exists>cs. apply_all gc cs (fst w) = Some (fst w)" by blast
  with Nil show ?case by simp
next
  case (Cons h hs)
  have "\<forall>j\<in>set [0..<slice_len ls]. j < slice_len ls" by simp
  from each_listener_ok [OF re Cons.prems this, of s h] obtain t1 w1 cs where
    r1: "each_listener call s h ls [0..<slice_len ls] w = Some (t1, w1)" "length t1 = slice_len ls"
      "map fst t1 = replicate (slice_len ls) h" "wf (fst w1)" "slot_live (heap (fst w1)) ls"
      "apply_all gc cs (fst w) = Some (fst w1)"
    by auto
  from Cons.IH [OF r1(4,5)] obtain t2 w2 ds where
    r2: "each_handler call s hs ls w1 = Some (t2, w2)" "length t2 = length hs * slice_len ls"
      "map fst t2 = concat (map (replicate (slice_len ls)) hs)" "wf (fst w2)"
      "slot_live (heap (fst w2)) ls" "apply_all gc ds (fst w1) = Some (fst w2)"
    by blast
  from r1(6) r2(6) have "apply_all gc (cs @ ds) (fst w) = Some (fst w2)"
    by (simp add: apply_all_append)
  then have "\<exists>cs. apply_all gc cs (fst w) = Some (fst w2)" by blast
  with r1 r2 show ?case by simp
qed

lemma each_listener_pure:
  assumes pure: "\<forall>h s x w. fst (snd (call h s x w)) = fst w"
  shows "slot_live (heap (fst w)) ls \<Longrightarrow> \<forall>j\<in>set js. j < slice_len ls \<Longrightarrow>
     \<exists>t w'. each_listener call s h ls js w = Some (t, w') \<and> fst w' = fst w
        \<and> map (\<lambda>(h, x). (h, Some x)) t = map (\<lambda>j. (h, slot_elems (heap (fst w)) ls ! j)) js"
proof (induction js arbitrary: w)
  case Nil
  then show ?case by simp
next
  case (Cons j js)
  from Cons.prems have "j < slice_len ls" by simp
  from slice_index_live [OF Cons.prems(1) this] obtain x where
    x: "slice_index (heap (fst w)) ls j = Some (Some x)" "slot_elems (heap (fst w)) ls ! j = Some x" by blast
  obtain err w1 where c: "call h s x w = (err, w1)" by (cases "call h s x w")
  with pure have same: "fst w1 = fst w" by (metis snd_conv)
  with Cons.prems have "slot_live (heap (fst w1)) ls" "\<forall>j\<in>set js. j < slice_len ls" by simp_all
  from Cons.IH [OF this] obtain t w' where
    r: "each_listener call s h ls js w1 = Some (t, w')" "fst w' = fst w1"
      "map (\<lambda>(h, x). (h, Some x)) t = map (\<lambda>j. (h, slot_elems (heap (fst w1)) ls ! j)) js"
    by blast
  with x c same show ?case by simp
qed

lemma each_handler_pure:
  assumes pure: "\<forall>h s x w. fst (snd (call h s x w)) = fst w"
  shows "slot_live (heap (fst w)) ls \<Longrightarrow>
     \<exists>t w'. each_handler call s hs ls w = Some (t, w') \<and> fst w' = fst w
        \<and> map (\<lambda>(h, x). (h, Some x)) t
            = concat (map (\<lambda>h. map (\<lambda>e. (h, e)) (slot_elems (heap (fst w)) ls)) hs)"
proof (induction hs arbitrary: w)
  case Nil
  then show ?case by simp
next
  case (Cons h hs)
  have "\<forall>j\<in>set [0..<slice_len ls]. j < slice_len ls" by simp
  from each_listener_pure [OF pure Cons.prems this, of s h] obtain t1 w1 where
    r1: "each_listener call s h ls [0..<slice_len ls] w = Some (t1, w1)" "fst w1 = fst w"
      "map (\<lambda>(h, x). (h, Some x)) t1 = map (\<lambda>j. (h, slot_elems (heap (fst w)) ls ! j)) [0..<slice_len ls]"
    by blast
  have len: "length (slot_elems (heap (fst w)) ls) = slice_len ls"
    using Cons.prems by (auto simp: slot_elems_def slot_live_def live_def slice_len_def split: option.splits)
  have "map (\<lambda>j. (h, slot_elems (heap (fst w)) ls ! j)) [0..<slice_len ls]
      = map (\<lambda>e. (h, e)) (map (\<lambda>j. slot_elems (heap (fst w)) ls ! j) [0..<slice_len ls])"
    by simp
  also have "\<dots> = map (\<lambda>e. (h, e)) (slot_elems (heap (fst w)) ls)"
    using len by (metis map_nth)
  finally have t1: "map (\<lambda>(h, x). (h, Some x)) t1 = map (\<lambda>e. (h, e)) (slot_elems (heap (fst w)) ls)"
    using r1(3) by simp
  from Cons.prems r1(2) have "slot_live (heap (fst w1)) ls" by simp
  from Cons.IH [OF this] obtain t2 w2 where
    r2: "each_handler call s hs ls w1 = Some (t2, w2)" "fst w2 = fst w1"
      "map (\<lambda>(h, x). (h, Some x)) t2
            = concat (map (\<lambda>h. map (\<lambda>e. (h, e)) (slot_elems (heap (fst w1)) ls)) hs)"
    by blast
  with r1 t1 show ?case by simp
qed

lemma each_listener_flag:
  "each_listener (\<lambda>h s x w. (flag h s x w, snd (call h s x w))) s h ls js w = each_listener call s h ls js w"
  by (induction js arbitrary: w) (simp_all add: split_beta cong: Option.bind_cong)

lemma each_handler_flag:
  "each_handler (\<lambda>h s x w. (flag h s x w, snd (call h s x w))) s hs ls w = each_handler call s hs ls w"
  by (induction hs arbitrary: w) (simp_all add: each_listener_flag cong: Option.bind_cong)

lemma ueach_listener_flag:
  "ueach_listener (\<lambda>h s x w. (flag h s x w, snd (call h s x w))) s h ds w = ueach_listener call s h ds w"
  by (induction ds arbitrary: w) (simp_all add: split_beta Let_def)

lemma ueach_handler_flag:
  "ueach_handler (\<lambda>h s x w. (flag h s x w, snd (call h s x w))) s hs ds w = ueach_handler call s hs ds w"
  by (induction hs arbitrary: w) (simp_all add: ueach_listener_flag)

lemma pure_reentrant:
  "\<forall>h s x w. fst (snd (call h s x w)) = fst w \<Longrightarrow> reentrant gc call"
  unfolding reentrant_def
proof (intro allI)
  fix h s x w
  assume "\<forall>h s x w. fst (snd (call h s x w)) = fst w"
  then have "fst (snd (call h s x w)) = fst w" by blast
  then have "apply_all gc [] (fst w) = Some (fst (snd (call h s x w)))" by simp
  then show "\<exists>cs. apply_all gc cs (fst w) = Some (fst (snd (call h s x w)))" ..
qed

lemma Broadcast_reentrant_ok:
  assumes "wf b" and "reentrant gc call"
  shows "\<exists>t w'. Broadcast call s (b, u) = Some (t, w')
      \<and> length t = length (elems (handlers b)) * length (entries s b)
      \<and> map fst t = concat (map (replicate (length (entries s b))) (elems (handlers b)))
      \<and> wf (fst w')"
  using each_handler_ok [OF assms(2), of "(b, u)" "map_index (listeners b) s" s "elems (handlers b)"]
    assms(1) wf_slot_live [OF assms(1), of s] wf_slice_len [OF assms(1), of s]
  by (auto simp: Broadcast_def)

lemma Broadcast_pure_ok:
  assumes "wf b" and "\<forall>h s x w. fst (snd (call h s x w)) = fst w"
  shows "\<exists>t w'. Broadcast call s (b, u) = Some (t, w') \<and> fst w' = b
      \<and> map (\<lambda>(h, x). (h, Some x)) t
            = concat (map (\<lambda>h. map (\<lambda>e. (h, e)) (entries s b)) (elems (handlers b)))"
  using each_handler_pure [OF assms(2), of "(b, u)" "map_index (listeners b) s" s "elems (handlers b)"]
    wf_slot_live [OF assms(1), of s]
  by (auto simp: Broadcast_def entries_slot)

lemma reentrant_unwatch_own: "reentrant double_cap unwatch_own"
  unfolding reentrant_def
proof (intro allI)
  fix h :: 'a and s x and w :: "('a, string) Broadcast_reg \<times> unit"
  show "\<exists>cs. apply_all double_cap cs (fst w) = Some (fst (snd (unwatch_own h s x w)))"
  proof (cases "Unwatch double_cap s x (fst w)")
    case None
    then have "apply_all double_cap [] (fst w) = Some (fst (snd (unwatch_own h s x w)))"
      by (simp add: unwatch_own_def)
    then show ?thesis ..
  next
    case (Some b')
    then have "apply_all double_cap [CallUnwatch s x] (fst w) = Some (fst (snd (unwatch_own h s x w)))"
      by (simp add: unwatch_own_def)
    then show ?thesis ..
  qed
qed

lemma range_map_calls:
  assumes "set order \<subseteq> dom m"
  shows "map (\<lambda>(s, n, c). (s, n)) (fst (range_map fn m order v))
           = take (length (fst (range_map fn m order v))) (map (\<lambda>s. (s, int (the (m s)))) order)
       \<and> (\<forall>i. Suc i < length (fst (range_map fn m order v)) \<longrightarrow> snd (snd (fst (range_map fn m order v) ! i)))
       \<and> (length (fst (range_map fn m order v)) < length order \<longrightarrow>
            fst (range_map fn m order v) \<noteq> [] \<and> \<not> snd (snd (last (fst (range_map fn m order v)))))"
  using assms
proof (induction order arbitrary: v)
  case Nil
  then show ?case by simp
next
  case (Cons s rest)
  then obtain n where n: "m s = Some n" by auto
  obtain c v1 where f: "fn s (int n) v = (c, v1)" by (cases "fn s (int n) v")
  show ?case
  proof (cases c)
    case False
    with n f show ?thesis by simp
  next
    case True
    obtain calls v2 where r: "range_map fn m rest v1 = (calls, v2)" by (cases "range_map fn m rest v1")
    from Cons.prems have "set rest \<subseteq> dom m" by simp
    from Cons.IH [OF this, of v1] r
    have ih: "map (\<lambda>(s, n, c). (s, n)) calls = take (length calls) (map (\<lambda>s. (s, int (the (m s)))) rest)"
      "\<forall>i. Suc i < length calls \<longrightarrow> snd (snd (calls ! i))"
      "length calls < length rest \<longrightarrow> calls \<noteq> [] \<and> \<not> snd (snd (last calls))"
      by simp_all
    have e: "fst (range_map fn m (s # rest) v) = (s, int n, True) # calls"
      using n f True r by simp
    have "snd (snd (((s, int n, True) # calls) ! i))" if "Suc i < length ((s, int n, True) # calls)" for i
      using that ih(2) by (cases i) simp_all
    with ih n show ?thesis unfolding e by simp
  qed
qed

lemma range_map_first_false:
  assumes "set order \<subseteq> dom m" and "\<forall>s n. \<not> fst (fn s n v)"
  shows "length (fst (range_map fn m order v)) = (if order = [] then 0 else 1)"
proof (cases order)
  case Nil
  then show ?thesis by simp
next
  case (Cons s rest)
  with assms(1) obtain n where n: "m s = Some n" by auto
  from assms(2) have "\<not> fst (fn s (int n) v)" by blast
  with Cons n show ?thesis by (simp add: split_beta)
qed

lemma range_map_all_true:
  assumes "set order \<subseteq> dom m" and "\<forall>s n v. fst (fn s n v)"
  shows "fst (range_map fn m order v) = map (\<lambda>s. (s, int (the (m s)), True)) order"
  using assms(1)
proof (induction order arbitrary: v)
  case Nil
  then show ?case by simp
next
  case (Cons s rest)
  then obtain n where n: "m s = Some n" by auto
  from assms(2) have "fst (fn s (int n) v)" by blast
  moreover from Cons have "fst (range_map fn m rest (snd (fn s (int n) v))) = map (\<lambda>s. (s, int (the (m s)), True)) rest"
    by simp
  ultimately show ?case using n by (simp add: split_beta)
qed

lemma range_map_members:
  "(s, n, c) \<in> set (fst (range_map fn m order v)) \<Longrightarrow> s \<in> set order \<and> m s \<noteq> None"
proof (induction order arbitrary: v)
  case Nil
  then show ?case by simp
next
  case (Cons s' rest)
  then show ?case
    by (auto simp: split_beta split: option.splits if_splits)
qed

lemma uentries_UWatch:
  "\<exists>b'. UWatch s d b = Some b' \<and> uhandlers b' = uhandlers b
      \<and> uentries s b' = (if Unique d \<in> set (ukeys s b) then uentries s b else uentries s b @ [d])
      \<and> (\<forall>s'. s' \<noteq> s \<longrightarrow> uentries s' b' = uentries s' b)
      \<and> (Unique d \<in> set (ukeys s b) \<longrightarrow> b' = b)
      \<and> (\<forall>s'. map_index (ulisteners b) s' \<noteq> None \<longrightarrow> map_index (ulisteners b') s' \<noteq> None)
      \<and> map_index (ulisteners b') s \<noteq> None"
proof (cases "Unique d \<in> set (ukeys s b)")
  case True
  then have "uentries s b \<noteq> []" by (auto simp: ukeys_def)
  then obtain f where f: "ulisteners b = Some f" "f s \<noteq> None"
    by (cases "ulisteners b"; cases "map_index (ulisteners b) s")
      (auto simp: uentries_def elems_def map_index_def)
  then have "lazy_map (ulisteners b) = ulisteners b" "map_index (ulisteners b) s \<noteq> None"
    by (simp_all add: lazy_map_def map_index_def)
  with True show ?thesis
    by (simp add: UWatch_eq)
next
  case False
  then show ?thesis
    by (simp add: UWatch_eq uentries_def map_index_assigned elems_def)
qed

lemma uentries_UUnwatch:
  "\<exists>b'. UUnwatch s d b = Some b' \<and> uhandlers b' = uhandlers b
      \<and> (\<forall>s'. s' \<noteq> s \<longrightarrow> uentries s' b' = uentries s' b)
      \<and> (Unique d \<notin> set (ukeys s b) \<longrightarrow> b' = b)
      \<and> (Unique d \<in> set (ukeys s b) \<longrightarrow>
            (\<exists>i<length (uentries s b). Unique (uentries s b ! i) = Unique d
                \<and> (\<forall>j<i. Unique (uentries s b ! j) \<noteq> Unique d)
                \<and> uentries s b' = take i (uentries s b) @ drop (Suc i) (uentries s b)
                \<and> map_index (ulisteners b') s = Some (uentries s b')))
      \<and> (\<forall>s'. map_index (ulisteners b') s' = None \<longleftrightarrow> map_index (ulisteners b) s' = None)"
proof (cases "first_index (\<lambda>item. Unique item = Unique d) (uentries s b)")
  case None
  then have "Unique d \<notin> set (ukeys s b)"
    by (auto simp: first_index_None ukeys_def)
  with None show ?thesis
    by (simp add: UUnwatch_eq uentries_def)
next
  case (Some i)
  from first_index_Some [OF Some]
  have i: "i < length (uentries s b)" "Unique (uentries s b ! i) = Unique d"
    "\<forall>j<i. Unique (uentries s b ! j) \<noteq> Unique d"
    by simp_all
  then have mem: "Unique d \<in> set (ukeys s b)"
    by (metis length_map nth_map nth_mem ukeys_def)
  from i(1) have present: "map_index (ulisteners b) s \<noteq> None"
    by (cases "map_index (ulisteners b) s") (auto simp: uentries_def elems_def)
  let ?b' = "b\<lparr>ulisteners := Some ((map_entries (ulisteners b))
                 (s \<mapsto> take i (uentries s b) @ drop (Suc i) (uentries s b)))\<rparr>"
  have u: "UUnwatch s d b = Some ?b'"
    using Some by (simp add: UUnwatch_eq uentries_def)
  have "uentries s ?b' = take i (uentries s b) @ drop (Suc i) (uentries s b)"
    by (simp add: uentries_def map_index_assigned elems_def)
  moreover have "map_index (ulisteners ?b') s = Some (uentries s ?b')"
    by (simp add: uentries_def map_index_assigned elems_def)
  moreover have "uentries s' ?b' = uentries s' b" if "s' \<noteq> s" for s'
    using that by (simp add: uentries_def map_index_assigned)
  moreover have "map_index (ulisteners ?b') s' = None \<longleftrightarrow> map_index (ulisteners b) s' = None" for s'
    using present by (auto simp: map_index_assigned)
  ultimately show ?thesis using u i mem by auto
qed

lemma uentries_UClean: "uentries s' (UClean s b) = (if s' = s then [] else uentries s' b)"
  by (simp add: uentries_def UClean_def map_index_deleted elems_def)

lemma uentries_UCleanAll: "uentries s' (UCleanAll b) = []"
  by (simp add: uentries_def UCleanAll_def map_index_def elems_def)

lemma uentries_UHandle: "uentries s' (UHandle h b) = uentries s' b"
  by (simp add: uentries_def UHandle_def)

lemma distinct_removed:
  assumes "distinct ys"
  shows "distinct (take i ys @ drop (Suc i) ys)"
proof -
  from assms have "distinct (take i ys @ drop i ys)" by simp
  then have a: "distinct (take i ys)" "set (take i ys) \<inter> set (drop i ys) = {}"
    unfolding distinct_append by simp_all
  have "set (drop (Suc i) ys) \<subseteq> set (drop i ys)"
    by (rule set_drop_subset_set_drop) simp
  with a assms show ?thesis by auto
qed

lemma distinct_keys_removed:
  "distinct (map f xs) \<Longrightarrow> distinct (map f (take i xs @ drop (Suc i) xs))"
  using distinct_removed [of "map f xs" i] by (simp add: take_map drop_map)

lemma uapply_inv:
  "\<exists>b'. uapply c b = Some b'
      \<and> (\<exists>more. elems (uhandlers b') = elems (uhandlers b) @ more)
      \<and> ((\<forall>s. distinct (ukeys s b)) \<longrightarrow> (\<forall>s. distinct (ukeys s b')))"
proof (cases c)
  case (UCallHandle h)
  then show ?thesis
    by (simp add: ukeys_def uentries_UHandle) (simp add: UHandle_def elems_def)
next
  case (UCallWatch s d)
  from uentries_UWatch [of s d b] obtain b' where
    b': "UWatch s d b = Some b'" "uhandlers b' = uhandlers b"
      "uentries s b' = (if Unique d \<in> set (ukeys s b) then uentries s b else uentries s b @ [d])"
      "\<forall>s'. s' \<noteq> s \<longrightarrow> uentries s' b' = uentries s' b"
    by blast
  have "distinct (ukeys s' b')" if "\<forall>s. distinct (ukeys s b)" for s'
    using that b'(3,4) by (cases "s' = s") (auto simp: ukeys_def)
  with UCallWatch b' show ?thesis by simp
next
  case (UCallUnwatch s d)
  from uentries_UUnwatch [of s d b] obtain b' where
    b': "UUnwatch s d b = Some b'" "uhandlers b' = uhandlers b"
      "\<forall>s'. s' \<noteq> s \<longrightarrow> uentries s' b' = uentries s' b"
      "Unique d \<notin> set (ukeys s b) \<longrightarrow> b' = b"
      "Unique d \<in> set (ukeys s b) \<longrightarrow>
            (\<exists>i. uentries s b' = take i (uentries s b) @ drop (Suc i) (uentries s b))"
    by blast
  have "distinct (ukeys s' b')" if d: "\<forall>s. distinct (ukeys s b)" for s'
  proof (cases "s' = s \<and> Unique d \<in> set (ukeys s b)")
    case True
    with b'(5) obtain i where "uentries s b' = take i (uentries s b) @ drop (Suc i) (uentries s b)"
      by blast
    with True d distinct_keys_removed [of Unique "uentries s b" i] show ?thesis
      by (simp add: ukeys_def)
  next
    case False
    with b'(3,4) d show ?thesis by (cases "s' = s") (auto simp: ukeys_def)
  qed
  with UCallUnwatch b' show ?thesis by simp
next
  case (UCallClean s)
  then show ?thesis
    by (simp add: ukeys_def uentries_UClean) (simp add: UClean_def)
next
  case UCallCleanAll
  then show ?thesis
    by (simp add: ukeys_def uentries_UCleanAll) (simp add: UCleanAll_def)
qed

lemma uapply_all_inv:
  "\<exists>b'. uapply_all cs b = Some b'
      \<and> (\<exists>more. elems (uhandlers b') = elems (uhandlers b) @ more)
      \<and> ((\<forall>s. distinct (ukeys s b)) \<longrightarrow> (\<forall>s. distinct (ukeys s b')))"
proof (induction cs arbitrary: b)
  case Nil
  then show ?case by simp
next
  case (Cons c cs)
  from uapply_inv [of c b] obtain b1 where
    b1: "uapply c b = Some b1" "\<exists>more. elems (uhandlers b1) = elems (uhandlers b) @ more"
      "(\<forall>s. distinct (ukeys s b)) \<longrightarrow> (\<forall>s. distinct (ukeys s b1))"
    by blast
  from Cons [of b1] obtain b2 where
    b2: "uapply_all cs b1 = Some b2" "\<exists>more. elems (uhandlers b2) = elems (uhandlers b1) @ more"
      "(\<forall>s. distinct (ukeys s b1)) \<longrightarrow> (\<forall>s. distinct (ukeys s b2))"
    by blast
  from b1(2) b2(2) have "\<exists>more. elems (uhandlers b2) = elems (uhandlers b) @ more" by auto
  with b1 b2 show ?case by simp
qed


lemma remove1_first:
  assumes "x \<in> set xs"
  shows "\<exists>i<length xs. xs ! i = x \<and> (\<forall>j<i. xs ! j \<noteq> x) \<and> remove1 x xs = take i xs @ drop (Suc i) xs"
proof -
  from first_index_found [OF assms] obtain i where i: "first_index (\<lambda>y. y = x) xs = Some i" ..
  from first_index_Some [OF i] first_index_remove1 [OF i] show ?thesis by auto
qed

lemma prefix_take: "ys = xs @ zs \<Longrightarrow> length xs \<le> length ys \<and> take (length xs) ys = xs"
  by simp

lemma ucount_entry:
  "s \<in> dom (map_entries (ulisteners ub)) \<Longrightarrow>
     int (the ((map_option length \<circ> map_entries (ulisteners ub)) s)) = UWatchCount s ub"
  by (auto simp: UWatchCount_def map_entries_index elems_def)

lemma count_entry:
  "s \<in> dom (map_entries (listeners b)) \<Longrightarrow>
     int (the ((map_option len \<circ> map_entries (listeners b)) s)) = WatchCount s b"
  by (auto simp: WatchCount_def map_entries_index slice_len_def)

lemma dom_map_option_comp: "dom (map_option f \<circ> m) = dom m"
  by (auto simp: dom_def)

lemma range_map_summary:
  assumes e: "enumerates order m" and cnt: "\<forall>s\<in>dom m. int (the ((map_option f \<circ> m) s)) = count s"
  shows "((\<forall>s n. \<not> fst (fn s n v)) \<longrightarrow>
            length (fst (range_map fn (map_option f \<circ> m) order v)) = (if order = [] then 0 else 1))
       \<and> ((\<forall>s n v'. fst (fn s n v')) \<longrightarrow>
            fst (range_map fn (map_option f \<circ> m) order v) = map (\<lambda>s. (s, count s, True)) order)
       \<and> map (\<lambda>(s, n, c). (s, n)) (fst (range_map fn (map_option f \<circ> m) order v))
            = take (length (fst (range_map fn (map_option f \<circ> m) order v))) (map (\<lambda>s. (s, count s)) order)
       \<and> (\<forall>i. Suc i < length (fst (range_map fn (map_option f \<circ> m) order v))
              \<longrightarrow> snd (snd (fst (range_map fn (map_option f \<circ> m) order v) ! i)))
       \<and> (length (fst (range_map fn (map_option f \<circ> m) order v)) < length order \<longrightarrow>
            fst (range_map fn (map_option f \<circ> m) order v) \<noteq> []
            \<and> \<not> snd (snd (last (fst (range_map fn (map_option f \<circ> m) order v)))))"
proof -
  let ?m = "map_option f \<circ> m"
  from e have sub: "set order \<subseteq> dom ?m"
    by (simp add: enumerates_def dom_map_option_comp)
  from e cnt have c1: "map (\<lambda>s. (s, int (the (?m s)))) order = map (\<lambda>s. (s, count s)) order"
    by (simp add: enumerates_def)
  from e cnt have c2: "map (\<lambda>s. (s, int (the (?m s)), True)) order = map (\<lambda>s. (s, count s, True)) order"
    by (simp add: enumerates_def)
  note r1 = range_map_first_false [OF sub, of fn v]
  note r2 = range_map_all_true [OF sub, of fn v, unfolded c2]
  note r3 = range_map_calls [OF sub, of fn v, unfolded c1]
  from r1 r2 r3 show ?thesis by blast
qed

lemma range_map_absent:
  "m s = None \<Longrightarrow> (s, n, c) \<notin> set (fst (range_map fn m order v))"
  using range_map_members [of s n c fn m order v] by blast

lemma range_map_empty:
  assumes "\<forall>s. m s = None"
  shows "fst (range_map fn m order v) = []"
proof (cases "fst (range_map fn m order v)")
  case Nil
  then show ?thesis .
next
  case (Cons e es)
  obtain s n c where "e = (s, n, c)" by (cases e)
  with Cons have "(s, n, c) \<in> set (fst (range_map fn m order v))" by simp
  with assms range_map_absent [of m s n c fn order v] show ?thesis by simp
qed

lemma range_map_visits_present:
  assumes "enumerates order m" and "m s = Some k" and "\<forall>s n v'. fst (fn s n v')"
  shows "(s, int (f k), True) \<in> set (fst (range_map fn (map_option f \<circ> m) order v))"
proof -
  from assms(1) have sub: "set order \<subseteq> dom (map_option f \<circ> m)"
    by (simp add: enumerates_def dom_map_option_comp)
  from assms(1,2) have "s \<in> set order" by (auto simp: enumerates_def)
  then have "(s, int (the ((map_option f \<circ> m) s)), True)
      \<in> set (map (\<lambda>s. (s, int (the ((map_option f \<circ> m) s)), True)) order)"
    by (rule imageI [of s "set order" "\<lambda>s. (s, int (the ((map_option f \<circ> m) s)), True)", unfolded set_map [symmetric]])
  with range_map_all_true [OF sub assms(3), of v] assms(2) show ?thesis by simp
qed





section \<open>What a Broadcast delivers\<close>

text \<open>
  With \<open>H\<close> handlers and \<open>L\<close> listeners of the signal, \<open>Broadcast\<close> makes \<open>H * L\<close>
  invocations, handler by handler in registration order; what the handlers return changes
  nothing. The keyed registry hands each handler the payloads of the listeners in
  registration order, whatever the handlers do. The direct registry makes the \<open>H * L\<close>
  invocations in handler order, without a panic, for all handlers that change the registry
  through its operations only, and it hands over the registered payloads in order when the
  handlers leave the registry alone.
\<close>

theorem Broadcast_fan_out:
  "fst (UBroadcast ucall s (ub, u))
      = concat (map (\<lambda>h. map (\<lambda>d. (h, Value d)) (uentries s ub)) (elems (uhandlers ub)))
   \<and> length (fst (UBroadcast ucall s (ub, u))) = length (elems (uhandlers ub)) * length (uentries s ub)
   \<and> UBroadcast (\<lambda>h s x w. (uflag h s x w, snd (ucall h s x w))) s (ub, u) = UBroadcast ucall s (ub, u)
   \<and> Broadcast (\<lambda>h s x w. (flag h s x w, snd (call h s x w))) s (b, v) = Broadcast call s (b, v)
   \<and> (initial b0 \<and> apply_all gc cs b0 = Some b \<and> reentrant gc call \<longrightarrow>
        (\<exists>t w'. Broadcast call s (b, v) = Some (t, w')
           \<and> length t = length (elems (handlers b)) * length (entries s b)
           \<and> map fst t = concat (map (replicate (length (entries s b))) (elems (handlers b)))))
   \<and> (initial b0 \<and> apply_all gc cs b0 = Some b \<and> (\<forall>h s x w. fst (snd (call h s x w)) = fst w) \<longrightarrow>
        (\<exists>t w'. Broadcast call s (b, v) = Some (t, w')
           \<and> map (\<lambda>(h, x). (h, Some x)) t
                = concat (map (\<lambda>h. map (\<lambda>e. (h, e)) (entries s b)) (elems (handlers b)))))"
proof -
  have k1: "fst (UBroadcast ucall s (ub, u))
      = concat (map (\<lambda>h. map (\<lambda>d. (h, Value d)) (uentries s ub)) (elems (uhandlers ub)))"
    by (rule UBroadcast_calls)
  have k2: "length (fst (UBroadcast ucall s (ub, u))) = length (elems (uhandlers ub)) * length (uentries s ub)"
    unfolding k1 by (induction "elems (uhandlers ub)") (simp_all add: length_concat comp_def sum_list_triv)
  have k3: "UBroadcast (\<lambda>h s x w. (uflag h s x w, snd (ucall h s x w))) s (ub, u) = UBroadcast ucall s (ub, u)"
    by (simp add: UBroadcast_def ueach_handler_flag)
  have d0: "Broadcast (\<lambda>h s x w. (flag h s x w, snd (call h s x w))) s (b, v) = Broadcast call s (b, v)"
    by (simp add: Broadcast_def each_handler_flag)
  have d1: "\<exists>t w'. Broadcast call s (b, v) = Some (t, w')
           \<and> length t = length (elems (handlers b)) * length (entries s b)
           \<and> map fst t = concat (map (replicate (length (entries s b))) (elems (handlers b)))"
    if "initial b0" "apply_all gc cs b0 = Some b" "reentrant gc call"
    using Broadcast_reentrant_ok [OF reachable_wf(1) [OF that(1,2)] that(3), of s v] by blast
  have d2: "\<exists>t w'. Broadcast call s (b, v) = Some (t, w')
           \<and> map (\<lambda>(h, x). (h, Some x)) t
                = concat (map (\<lambda>h. map (\<lambda>e. (h, e)) (entries s b)) (elems (handlers b)))"
    if "initial b0" "apply_all gc cs b0 = Some b" "\<forall>h s x w. fst (snd (call h s x w)) = fst w"
    using Broadcast_pure_ok [OF reachable_wf(1) [OF that(1,2)] that(3), of s v] by blast
  from k1 k2 k3 d0 d1 d2 show ?thesis by blast
qed

theorem Broadcast_fan_out_witness:
  "initial (New :: (string, string) Broadcast_reg)
   \<and> reentrant double_cap (unwatch_own :: (string, string, (string, string) Broadcast_reg \<times> unit) invoke)
   \<and> (\<exists>b. apply_all double_cap
             [CallHandle ''h1'', CallHandle ''h2'', CallWatch ''s'' ''a'', CallWatch ''s'' ''b'',
              CallWatch ''s'' ''c''] New = Some b
          \<and> (\<exists>t w'. Broadcast unwatch_own ''s'' (b, ()) = Some (t, w')
                \<and> length t = 6
                \<and> map fst t = [''h1'', ''h1'', ''h1'', ''h2'', ''h2'', ''h2''])
          \<and> (\<exists>t w'. Broadcast (\<lambda>h s x w. (False, w)) ''s'' (b, ()) = Some (t, w')
                \<and> t = [(''h1'', ''a''), (''h1'', ''b''), (''h1'', ''c''),
                       (''h2'', ''a''), (''h2'', ''b''), (''h2'', ''c'')]))"
proof -
  let ?cs = "[CallHandle ''h1'', CallHandle ''h2'', CallWatch ''s'' ''a'', CallWatch ''s'' ''b'',
              CallWatch ''s'' ''c'']"
  let ?pure = "\<lambda>(h::string) (s::string) (x::string) (w::(string, string) Broadcast_reg \<times> unit). (False, w)"
  have i: "initial (New :: (string, string) Broadcast_reg)" by (simp add: initial_def)
  have r: "reentrant double_cap (unwatch_own :: (string, string, (string, string) Broadcast_reg \<times> unit) invoke)"
    by (rule reentrant_unwatch_own)
  have p: "\<forall>h s x w. fst (snd (?pure h s x w)) = fst w" by simp
  have "map_option (\<lambda>b. (entries ''s'' b, elems (handlers b))) (apply_all double_cap ?cs (New :: (string, string) Broadcast_reg))
      = Some ([Some ''a'', Some ''b'', Some ''c''], [''h1'', ''h2''])"
    by code_simp
  then obtain b where b: "apply_all double_cap ?cs (New :: (string, string) Broadcast_reg) = Some b"
    "entries ''s'' b = [Some ''a'', Some ''b'', Some ''c'']" "elems (handlers b) = [''h1'', ''h2'']"
    by auto
  have "\<exists>t w'. Broadcast unwatch_own ''s'' (b, ()) = Some (t, w')
           \<and> length t = length (elems (handlers b)) * length (entries ''s'' b)
           \<and> map fst t = concat (map (replicate (length (entries ''s'' b))) (elems (handlers b)))"
    using Broadcast_fan_out [where call = unwatch_own and s = "''s''" and b = b and v = "()" and ?b0.0 = New
        and gc = double_cap and cs = ?cs, THEN conjunct2, THEN conjunct2, THEN conjunct2,
        THEN conjunct2, THEN conjunct1] i b(1) r
    by simp
  then obtain t w' where t: "Broadcast unwatch_own ''s'' (b, ()) = Some (t, w')" "length t = 6"
    "map fst t = [''h1'', ''h1'', ''h1'', ''h2'', ''h2'', ''h2'']"
    unfolding b(2,3) by (auto simp: numeral_eq_Suc)
  have "\<exists>t w'. Broadcast ?pure ''s'' (b, ()) = Some (t, w')
           \<and> map (\<lambda>(h, x). (h, Some x)) t
                = concat (map (\<lambda>h. map (\<lambda>e. (h, e)) (entries ''s'' b)) (elems (handlers b)))"
    using Broadcast_fan_out [where call = ?pure and s = "''s''" and b = b and v = "()" and ?b0.0 = New
        and gc = double_cap and cs = ?cs, THEN conjunct2, THEN conjunct2, THEN conjunct2,
        THEN conjunct2, THEN conjunct2] i b(1) p
    by simp
  then obtain t2 w2 where t2: "Broadcast ?pure ''s'' (b, ()) = Some (t2, w2)"
    "map (\<lambda>(h, x). (h, Some x)) t2 = [(''h1'', Some ''a''), (''h1'', Some ''b''), (''h1'', Some ''c''),
                       (''h2'', Some ''a''), (''h2'', Some ''b''), (''h2'', Some ''c'')]"
    unfolding b(2,3) by auto
  from t2(2) have tt: "t2 = [(''h1'', ''a''), (''h1'', ''b''), (''h1'', ''c''),
                       (''h2'', ''a''), (''h2'', ''b''), (''h2'', ''c'')]"
    by (auto simp: map_eq_Cons_conv)
  show ?thesis
    using i r b(1) t t2(1) tt by (intro conjI exI) assumption+
qed

section \<open>The claims\<close>

text \<open>
  Claim C1. The invocations of one \<open>Broadcast\<close> are fixed by the handlers and the
  listeners of the signal when \<open>Broadcast\<close> reads them, whatever the handlers do to the
  registry meanwhile. The keyed registry does this for every handler (\<open>UBroadcast_calls\<close>
  holds for every \<open>call\<close>). The direct registry does not. Below, \<open>a\<close>, \<open>b\<close> and
  \<open>c\<close> are registered under \<open>s\<close> and the one handler unregisters the payload it is
  handed. The direct \<open>Broadcast\<close> hands it \<open>a\<close>, \<open>c\<close>, \<open>c\<close>: \<open>Unwatch\<close> moved \<open>b\<close>
  and \<open>c\<close> down inside the array that \<open>Broadcast\<close> is still ranging over, so \<open>b\<close> is
  never delivered and \<open>c\<close> is delivered twice. The keyed \<open>Broadcast\<close> hands the same
  handler \<open>a\<close>, \<open>b\<close>, \<open>c\<close>.
\<close>

theorem Broadcast_reentrant_Unwatch_changes_payloads:
  "(case apply_all double_cap
           [CallHandle (), CallWatch ''s'' ''a'', CallWatch ''s'' ''b'', CallWatch ''s'' ''c''] New of
      None \<Rightarrow> None
    | Some b \<Rightarrow> Some (entries ''s'' b, map_option fst (Broadcast unwatch_own ''s'' (b, ()))))
   = Some ([Some ''a'', Some ''b'', Some ''c''], Some [((), ''a''), ((), ''c''), ((), ''c'')])
   \<and> (case uapply_all
           [UCallHandle (), UCallWatch ''s'' (Uniquer ''a'' ''a''), UCallWatch ''s'' (Uniquer ''b'' ''b''),
            UCallWatch ''s'' (Uniquer ''c'' ''c'')] NewUnique of
      None \<Rightarrow> None
    | Some b \<Rightarrow> Some (map Value (uentries ''s'' b), fst (UBroadcast uunwatch_own ''s'' (b, ()))))
   = Some ([''a'', ''b'', ''c''], [((), ''a''), ((), ''b''), ((), ''c'')])"
  by code_simp

text \<open>
  Claim C2. With \<open>H\<close> handlers and \<open>L\<close> listeners of the signal, \<open>Broadcast\<close> makes
  \<open>H * L\<close> invocations, the handlers in registration order and, for each handler, the
  listeners in registration order. The direct registry makes the \<open>H * L\<close> invocations
  but not on the listeners in order: below, two handlers that each unregister the payload
  they are handed and the listeners \<open>a\<close>, \<open>b\<close>, \<open>c\<close> give six invocations, on \<open>a\<close>,
  \<open>c\<close>, \<open>c\<close> for the first handler and \<open>b\<close>, \<open>c\<close>, \<open>c\<close> for the second. The
  keyed registry gives \<open>a\<close>, \<open>b\<close>, \<open>c\<close> to each (\<open>Broadcast_fan_out\<close> states what
  holds in general).
\<close>

theorem Broadcast_reentrant_Unwatch_breaks_listener_order:
  "(case apply_all double_cap
           [CallHandle ''h1'', CallHandle ''h2'', CallWatch ''s'' ''a'', CallWatch ''s'' ''b'',
            CallWatch ''s'' ''c''] New of
      None \<Rightarrow> None
    | Some b \<Rightarrow>
        Some (elems (handlers b), entries ''s'' b, map_option fst (Broadcast unwatch_own ''s'' (b, ()))))
   = Some ([''h1'', ''h2''], [Some ''a'', Some ''b'', Some ''c''],
           Some [(''h1'', ''a''), (''h1'', ''c''), (''h1'', ''c''),
                 (''h2'', ''b''), (''h2'', ''c''), (''h2'', ''c'')])
   \<and> (case uapply_all
           [UCallHandle ''h1'', UCallHandle ''h2'', UCallWatch ''s'' (Uniquer ''a'' ''a''),
            UCallWatch ''s'' (Uniquer ''b'' ''b''), UCallWatch ''s'' (Uniquer ''c'' ''c'')] NewUnique of
      None \<Rightarrow> None
    | Some b \<Rightarrow>
        Some (elems (uhandlers b), map Value (uentries ''s'' b), fst (UBroadcast uunwatch_own ''s'' (b, ()))))
   = Some ([''h1'', ''h2''], [''a'', ''b'', ''c''],
           [(''h1'', ''a''), (''h1'', ''b''), (''h1'', ''c''),
            (''h2'', ''a''), (''h2'', ''b''), (''h2'', ''c'')])"
  by code_simp






text \<open>
  Claim C5. \<open>Unwatch\<close> of a signal and a payload removes one listener at most: the first
  one, in insertion order, whose identity is the payload's. The listeners before it and
  after it keep their order, the other signals and the handlers are untouched, and when no
  listener of the signal has that identity (or the signal has none) the registry is left
  exactly as it was. Keyed registry: in every state. Direct registry: in every state that
  calls reach from a new registry.
\<close>

theorem Unwatch_removes_first_match:
  "(\<exists>ub'. UUnwatch s p ub = Some ub' \<and> uhandlers ub' = uhandlers ub
      \<and> (\<forall>s'. s' \<noteq> s \<longrightarrow> uentries s' ub' = uentries s' ub)
      \<and> (Unique p \<notin> set (ukeys s ub) \<longrightarrow> ub' = ub)
      \<and> (Unique p \<in> set (ukeys s ub) \<longrightarrow>
            (\<exists>i<length (uentries s ub). Unique (uentries s ub ! i) = Unique p
                \<and> (\<forall>j<i. Unique (uentries s ub ! j) \<noteq> Unique p)
                \<and> uentries s ub' = take i (uentries s ub) @ drop (Suc i) (uentries s ub))))
   \<and> (initial b0 \<and> apply_all gc cs b0 = Some b \<longrightarrow>
        (\<exists>b'. Unwatch gc s x b = Some b' \<and> handlers b' = handlers b
           \<and> (\<forall>s'. s' \<noteq> s \<longrightarrow> entries s' b' = entries s' b)
           \<and> (Some x \<notin> set (entries s b) \<longrightarrow> b' = b)
           \<and> (Some x \<in> set (entries s b) \<longrightarrow>
                (\<exists>i<length (entries s b). entries s b ! i = Some x
                    \<and> (\<forall>j<i. entries s b ! j \<noteq> Some x)
                    \<and> entries s b' = take i (entries s b) @ drop (Suc i) (entries s b)))))"
proof -
  have keyed: "\<exists>ub'. UUnwatch s p ub = Some ub' \<and> uhandlers ub' = uhandlers ub
      \<and> (\<forall>s'. s' \<noteq> s \<longrightarrow> uentries s' ub' = uentries s' ub)
      \<and> (Unique p \<notin> set (ukeys s ub) \<longrightarrow> ub' = ub)
      \<and> (Unique p \<in> set (ukeys s ub) \<longrightarrow>
            (\<exists>i<length (uentries s ub). Unique (uentries s ub ! i) = Unique p
                \<and> (\<forall>j<i. Unique (uentries s ub ! j) \<noteq> Unique p)
                \<and> uentries s ub' = take i (uentries s ub) @ drop (Suc i) (uentries s ub)))"
    using uentries_UUnwatch [of s p ub] by blast
  have direct: "\<exists>b'. Unwatch gc s x b = Some b' \<and> handlers b' = handlers b
           \<and> (\<forall>s'. s' \<noteq> s \<longrightarrow> entries s' b' = entries s' b)
           \<and> (Some x \<notin> set (entries s b) \<longrightarrow> b' = b)
           \<and> (Some x \<in> set (entries s b) \<longrightarrow>
                (\<exists>i<length (entries s b). entries s b ! i = Some x
                    \<and> (\<forall>j<i. entries s b ! j \<noteq> Some x)
                    \<and> entries s b' = take i (entries s b) @ drop (Suc i) (entries s b)))"
    if "initial b0" "apply_all gc cs b0 = Some b"
  proof -
    from Unwatch_wf [OF reachable_wf(1) [OF that], of gc s x] obtain b' where
      b': "Unwatch gc s x b = Some b'" "handlers b' = handlers b"
        "entries s b' = remove1 (Some x) (entries s b)"
        "\<forall>s'. s' \<noteq> s \<longrightarrow> entries s' b' = entries s' b"
        "Some x \<notin> set (entries s b) \<longrightarrow> b' = b"
      by blast
    have "\<exists>i<length (entries s b). entries s b ! i = Some x
                    \<and> (\<forall>j<i. entries s b ! j \<noteq> Some x)
                    \<and> entries s b' = take i (entries s b) @ drop (Suc i) (entries s b)"
      if "Some x \<in> set (entries s b)"
      using remove1_first [OF that] b'(3) by simp
    with b' show ?thesis by blast
  qed
  from keyed direct show ?thesis by blast
qed

theorem Unwatch_removes_first_match_witness:
  "(\<exists>ub ub'. uapply_all [UCallWatch ''s'' (Uniquer 1 ''x''), UCallWatch ''s'' (Uniquer 2 ''y''),
                            UCallWatch ''s'' (Uniquer 3 ''z'')]
                   (NewUnique :: (unit, nat, string) UniqueBroadcast) = Some ub
          \<and> ukeys ''s'' ub = [1, 2, 3]
          \<and> UUnwatch ''s'' (Uniquer 2 ''other'') ub = Some ub'
          \<and> uentries ''s'' ub' = [Uniquer 1 ''x'', Uniquer 3 ''z'']
          \<and> UUnwatch ''s'' (Uniquer 9 ''y'') ub = Some ub)
   \<and> initial (New :: (unit, string) Broadcast_reg)
   \<and> (\<exists>b b'. apply_all double_cap [CallWatch ''s'' ''a'', CallWatch ''s'' ''b'', CallWatch ''s'' ''c'']
                 (New :: (unit, string) Broadcast_reg) = Some b
          \<and> entries ''s'' b = [Some ''a'', Some ''b'', Some ''c'']
          \<and> Unwatch double_cap ''s'' ''b'' b = Some b'
          \<and> entries ''s'' b' = [Some ''a'', Some ''c'']
          \<and> Unwatch double_cap ''s'' ''z'' b = Some b)"
proof -
  let ?ucs = "[UCallWatch ''s'' (Uniquer (1::nat) ''x''), UCallWatch ''s'' (Uniquer 2 ''y''),
               UCallWatch ''s'' (Uniquer 3 ''z'')]"
  let ?cs = "[CallWatch ''s'' ''a'', CallWatch ''s'' ''b'', CallWatch ''s'' ''c'']"
  have i: "initial (New :: (unit, string) Broadcast_reg)"
    by (simp add: initial_def)
  have "map_option (\<lambda>ub. (ukeys ''s'' ub, map_option (uentries ''s'') (UUnwatch ''s'' (Uniquer 2 ''other'') ub)))
          (uapply_all ?ucs (NewUnique :: (unit, nat, string) UniqueBroadcast))
        = Some ([1, 2, 3], Some [Uniquer 1 ''x'', Uniquer 3 ''z''])"
    by code_simp
  then obtain ub where ub: "uapply_all ?ucs (NewUnique :: (unit, nat, string) UniqueBroadcast) = Some ub"
    "ukeys ''s'' ub = [1, 2, 3]"
    "map_option (uentries ''s'') (UUnwatch ''s'' (Uniquer 2 ''other'') ub) = Some [Uniquer 1 ''x'', Uniquer 3 ''z'']"
    by auto
  from Unwatch_removes_first_match [where s = "''s''" and p = "Uniquer 2 ''other''" and ub = ub,
      THEN conjunct1]
  obtain ub' where ub': "UUnwatch ''s'' (Uniquer 2 ''other'') ub = Some ub'" by blast
  with ub(3) have e: "uentries ''s'' ub' = [Uniquer 1 ''x'', Uniquer 3 ''z'']" by simp
  from Unwatch_removes_first_match [where s = "''s''" and p = "Uniquer 9 ''y''" and ub = ub,
      THEN conjunct1] ub(2)
  have n: "UUnwatch ''s'' (Uniquer 9 ''y'') ub = Some ub" by auto
  have "map_option (\<lambda>b. (entries ''s'' b, map_option (entries ''s'') (Unwatch double_cap ''s'' ''b'' b)))
          (apply_all double_cap ?cs (New :: (unit, string) Broadcast_reg))
        = Some ([Some ''a'', Some ''b'', Some ''c''], Some [Some ''a'', Some ''c''])"
    by code_simp
  then obtain b where b: "apply_all double_cap ?cs (New :: (unit, string) Broadcast_reg) = Some b"
    "entries ''s'' b = [Some ''a'', Some ''b'', Some ''c'']"
    "map_option (entries ''s'') (Unwatch double_cap ''s'' ''b'' b) = Some [Some ''a'', Some ''c'']"
    by auto
  from Unwatch_removes_first_match [where s = "''s''" and x = "''b''" and b = b and ?b0.0 = New
      and gc = double_cap and cs = ?cs, THEN conjunct2] i b(1)
  obtain b' where b': "Unwatch double_cap ''s'' ''b'' b = Some b'" by blast
  with b(3) have e': "entries ''s'' b' = [Some ''a'', Some ''c'']" by simp
  from Unwatch_removes_first_match [where s = "''s''" and x = "''z''" and b = b and ?b0.0 = New
      and gc = double_cap and cs = ?cs, THEN conjunct2] i b(1,2)
  have n': "Unwatch double_cap ''s'' ''z'' b = Some b" by auto
  show ?thesis
    using ub(1,2) ub' e n i b(1,2) b' e' n' by (intro conjI exI) assumption+
qed




text \<open>
  Claim C7. In both registries and in every state, \<open>HasWatch\<close> of a signal is true exactly
  when its \<open>WatchCount\<close> is positive; a signal that is in the map with no listener left
  and a signal that is not in the map both report no watch and the count zero.
\<close>

theorem HasWatch_iff_WatchCount_positive:
  "(UHasWatch s ub \<longleftrightarrow> 0 < UWatchCount s ub)
   \<and> (HasWatch s b \<longleftrightarrow> 0 < WatchCount s b)
   \<and> (map_index (ulisteners ub) s = Some [] \<or> map_index (ulisteners ub) s = None
        \<longrightarrow> \<not> UHasWatch s ub \<and> UWatchCount s ub = 0)
   \<and> ((\<exists>a. map_index (listeners b) s = Some (Slice a 0)) \<or> map_index (listeners b) s = None
        \<longrightarrow> \<not> HasWatch s b \<and> WatchCount s b = 0)"
  by (auto simp: UHasWatch_def UWatchCount_def HasWatch_def WatchCount_def map_entries_index
      elems_def slice_len_def split: option.splits)

theorem HasWatch_iff_WatchCount_positive_witness:
  "map_index (ulisteners (NewUnique\<lparr>ulisteners := Some [''s'' \<mapsto> []]\<rparr>
        :: (unit, nat, string) UniqueBroadcast)) ''s'' = Some []
   \<and> \<not> UHasWatch ''s'' (NewUnique\<lparr>ulisteners := Some [''s'' \<mapsto> []]\<rparr>
        :: (unit, nat, string) UniqueBroadcast)
   \<and> UWatchCount ''s'' (NewUnique\<lparr>ulisteners := Some [''s'' \<mapsto> []]\<rparr>
        :: (unit, nat, string) UniqueBroadcast) = 0
   \<and> map_index (listeners (New :: (unit, string) Broadcast_reg)) ''s'' = None
   \<and> \<not> HasWatch ''s'' (New :: (unit, string) Broadcast_reg)
   \<and> WatchCount ''s'' (New :: (unit, string) Broadcast_reg) = 0"
  using HasWatch_iff_WatchCount_positive
    [of "''s''" "NewUnique\<lparr>ulisteners := Some [''s'' \<mapsto> []]\<rparr> :: (unit, nat, string) UniqueBroadcast"
        "New :: (unit, string) Broadcast_reg"]
  by (simp add: map_index_def New_def)

text \<open>
  Claim C8. \<open>Clean\<close> of a signal removes that signal's listeners and nothing else: every
  other signal keeps its listeners and its count. \<open>Clean\<close> and \<open>CleanAll\<close> leave the
  handlers alone, and across any sequence of calls the handlers a registry had are still
  there, in place, so their number never goes down. (The queries return values only, and
  \<open>Broadcast\<close> changes a registry only through the calls its handlers make.)
\<close>

theorem Clean_frame_and_handlers_grow:
  "uentries a (UClean a ub) = [] \<and> map_index (ulisteners (UClean a ub)) a = None
   \<and> (s \<noteq> a \<longrightarrow> uentries s (UClean a ub) = uentries s ub
                 \<and> UWatchCount s (UClean a ub) = UWatchCount s ub)
   \<and> uhandlers (UClean a ub) = uhandlers ub \<and> uhandlers (UCleanAll ub) = uhandlers ub
   \<and> (uapply_all ucs ub = Some ub' \<longrightarrow>
         length (elems (uhandlers ub)) \<le> length (elems (uhandlers ub'))
         \<and> take (length (elems (uhandlers ub))) (elems (uhandlers ub')) = elems (uhandlers ub))
   \<and> entries a (Clean a b) = [] \<and> map_index (listeners (Clean a b)) a = None
   \<and> (s \<noteq> a \<longrightarrow> entries s (Clean a b) = entries s b
                 \<and> WatchCount s (Clean a b) = WatchCount s b)
   \<and> heap (Clean a b) = heap b
   \<and> handlers (Clean a b) = handlers b \<and> handlers (CleanAll b) = handlers b
   \<and> (initial b0 \<and> apply_all gc cs0 b0 = Some b \<and> apply_all gc cs b = Some b' \<longrightarrow>
         length (elems (handlers b)) \<le> length (elems (handlers b'))
         \<and> take (length (elems (handlers b))) (elems (handlers b')) = elems (handlers b))"
proof -
  have k: "length (elems (uhandlers ub)) \<le> length (elems (uhandlers ub'))
         \<and> take (length (elems (uhandlers ub))) (elems (uhandlers ub')) = elems (uhandlers ub)"
    if "uapply_all ucs ub = Some ub'"
    using uapply_all_inv [of ucs ub] that by (auto dest: prefix_take)
  have d: "length (elems (handlers b)) \<le> length (elems (handlers b'))
         \<and> take (length (elems (handlers b))) (elems (handlers b')) = elems (handlers b)"
    if "initial b0" "apply_all gc cs0 b0 = Some b" "apply_all gc cs b = Some b'"
    using apply_all_wf [OF reachable_wf(1) [OF that(1,2)], of gc cs] that(3) by (auto dest: prefix_take)
  have "UWatchCount s (UClean a ub) = UWatchCount s ub" if "s \<noteq> a"
    using that by (simp add: UWatchCount_def UClean_def map_index_deleted)
  moreover have "WatchCount s (Clean a b) = WatchCount s b" if "s \<noteq> a"
    using that by (simp add: WatchCount_def Clean_def map_index_deleted)
  moreover have "map_index (ulisteners (UClean a ub)) a = None" "map_index (listeners (Clean a b)) a = None"
    by (simp_all add: UClean_def Clean_def map_index_deleted)
  moreover have "uhandlers (UClean a ub) = uhandlers ub" "uhandlers (UCleanAll ub) = uhandlers ub"
    "handlers (Clean a b) = handlers b" "handlers (CleanAll b) = handlers b" "heap (Clean a b) = heap b"
    by (simp_all add: UClean_def UCleanAll_def Clean_def CleanAll_def)
  ultimately show ?thesis
    using k d by (simp add: uentries_UClean entries_Clean)
qed


theorem Clean_frame_and_handlers_grow_witness:
  "''b'' \<noteq> ''a''
   \<and> (\<exists>ub ub'. uapply_all [UCallHandle ''h'', UCallWatch ''a'' (Uniquer 1 ''x''),
                            UCallWatch ''b'' (Uniquer 2 ''y'')]
                   (NewUnique :: (string, nat, string) UniqueBroadcast) = Some ub
          \<and> UWatchCount ''b'' ub = 1
          \<and> UWatchCount ''b'' (UClean ''a'' ub) = UWatchCount ''b'' ub
          \<and> uentries ''a'' (UClean ''a'' ub) = []
          \<and> uapply_all [UCallClean ''a'', UCallHandle ''g'', UCallCleanAll] ub = Some ub'
          \<and> length (elems (uhandlers ub)) \<le> length (elems (uhandlers ub')))
   \<and> initial (New :: (string, string) Broadcast_reg)
   \<and> (\<exists>b b'. apply_all double_cap [CallHandle ''h'', CallWatch ''a'' ''x'', CallWatch ''b'' ''y'']
                 (New :: (string, string) Broadcast_reg) = Some b
          \<and> WatchCount ''b'' b = 1
          \<and> WatchCount ''b'' (Clean ''a'' b) = WatchCount ''b'' b
          \<and> entries ''a'' (Clean ''a'' b) = []
          \<and> apply_all double_cap [CallClean ''a'', CallHandle ''g'', CallCleanAll] b = Some b'
          \<and> length (elems (handlers b)) \<le> length (elems (handlers b')))"
proof -
  let ?ucs = "[UCallHandle ''h'', UCallWatch ''a'' (Uniquer (1::nat) ''x''),
               UCallWatch ''b'' (Uniquer 2 ''y'')]"
  let ?ucs' = "[UCallClean ''a'', UCallHandle ''g'', UCallCleanAll]"
  let ?cs = "[CallHandle ''h'', CallWatch ''a'' ''x'', CallWatch ''b'' ''y'']"
  let ?cs' = "[CallClean ''a'', CallHandle ''g'', CallCleanAll]"
  have ne: "''b'' \<noteq> ''a''" by simp
  have i: "initial (New :: (string, string) Broadcast_reg)"
    by (simp add: initial_def)
  have "map_option (UWatchCount ''b'') (uapply_all ?ucs (NewUnique :: (string, nat, string) UniqueBroadcast)) = Some 1"
    by code_simp
  then obtain ub where ub: "uapply_all ?ucs (NewUnique :: (string, nat, string) UniqueBroadcast) = Some ub"
    "UWatchCount ''b'' ub = 1"
    by auto
  obtain ub' where ub': "uapply_all ?ucs' ub = Some ub'"
    using uapply_all_inv [of ?ucs' ub] by blast
  have "map_option (WatchCount ''b'') (apply_all double_cap ?cs (New :: (string, string) Broadcast_reg)) = Some 1"
    by code_simp
  then obtain b where b: "apply_all double_cap ?cs (New :: (string, string) Broadcast_reg) = Some b"
    "WatchCount ''b'' b = 1"
    by auto
  obtain b' where b': "apply_all double_cap ?cs' b = Some b'"
    using apply_all_wf [OF reachable_wf(1) [OF i b(1)], of double_cap ?cs'] by blast
  note inst = Clean_frame_and_handlers_grow [where a = "''a''" and s = "''b''" and ub = ub
      and ucs = ?ucs' and ub' = ub' and b = b and ?b0.0 = New and gc = double_cap and ?cs0.0 = ?cs
      and cs = ?cs' and b' = b']
  from inst ne have c1: "UWatchCount ''b'' (UClean ''a'' ub) = UWatchCount ''b'' ub" by simp
  from inst have c2: "uentries ''a'' (UClean ''a'' ub) = []" by simp
  from inst ub' have c3: "length (elems (uhandlers ub)) \<le> length (elems (uhandlers ub'))" by simp
  from inst ne have c4: "WatchCount ''b'' (Clean ''a'' b) = WatchCount ''b'' b" by simp
  from inst have c5: "entries ''a'' (Clean ''a'' b) = []" by simp
  from inst i b(1) b' have c6: "length (elems (handlers b)) \<le> length (elems (handlers b'))" by simp
  show ?thesis
    using ne ub c1 c2 ub' c3 i b c4 c5 b' c6 by (intro conjI exI) assumption+
qed

text \<open>
  Claim C9, as stated, says that a visitor that answers false at its first call makes
  \<open>Range\<close> visit exactly one signal whatever the number of signals. With no signal in the
  map \<open>Range\<close> never calls the visitor: it visits none, as the repository's test of the
  empty registry expects.
\<close>

theorem Range_empty_registry_visits_none:
  "enumerates [] (map_entries (listeners (New :: (unit, string) Broadcast_reg)))
   \<and> length (fst (Range (\<lambda>s n v. (False, v)) [] (New :: (unit, string) Broadcast_reg) ())) \<noteq> 1
   \<and> enumerates [] (map_entries (ulisteners (NewUnique :: (unit, nat, string) UniqueBroadcast)))
   \<and> length (fst (URange (\<lambda>s n v. (False, v)) [] (NewUnique :: (unit, nat, string) UniqueBroadcast) ())) \<noteq> 1"
  by (simp add: enumerates_def map_entries_def New_def NewUnique_def Range_def URange_def)

text \<open>
  Claim C9, amended. For every order in which the runtime may enumerate the map, in both
  registries: if the visitor answers false at its first call, \<open>Range\<close> visits exactly one
  signal when the map holds at least one, and none when it is empty. In general \<open>Range\<close>
  calls the visitor on the enumerated signals in turn, each with the count of its
  listeners, every call but the last was answered true, and it stops before the end of the
  enumeration only right after a call answered false. A visitor that always answers true
  is called once for every signal in the map.
\<close>

theorem Range_stops_at_first_false:
  "(enumerates order (map_entries (ulisteners ub)) \<longrightarrow>
       ((\<forall>s n. \<not> fst (fn s n v)) \<longrightarrow>
            length (fst (URange fn order ub v)) = (if order = [] then 0 else 1))
       \<and> ((\<forall>s n v'. fst (fn s n v')) \<longrightarrow>
            fst (URange fn order ub v) = map (\<lambda>s. (s, UWatchCount s ub, True)) order)
       \<and> map (\<lambda>(s, n, c). (s, n)) (fst (URange fn order ub v))
            = take (length (fst (URange fn order ub v))) (map (\<lambda>s. (s, UWatchCount s ub)) order)
       \<and> (\<forall>i. Suc i < length (fst (URange fn order ub v))
              \<longrightarrow> snd (snd (fst (URange fn order ub v) ! i)))
       \<and> (length (fst (URange fn order ub v)) < length order \<longrightarrow>
            fst (URange fn order ub v) \<noteq> []
            \<and> \<not> snd (snd (last (fst (URange fn order ub v))))))
   \<and> (enumerates order (map_entries (listeners b)) \<longrightarrow>
       ((\<forall>s n. \<not> fst (fn s n v)) \<longrightarrow>
            length (fst (Range fn order b v)) = (if order = [] then 0 else 1))
       \<and> ((\<forall>s n v'. fst (fn s n v')) \<longrightarrow>
            fst (Range fn order b v) = map (\<lambda>s. (s, WatchCount s b, True)) order)
       \<and> map (\<lambda>(s, n, c). (s, n)) (fst (Range fn order b v))
            = take (length (fst (Range fn order b v))) (map (\<lambda>s. (s, WatchCount s b)) order)
       \<and> (\<forall>i. Suc i < length (fst (Range fn order b v))
              \<longrightarrow> snd (snd (fst (Range fn order b v) ! i)))
       \<and> (length (fst (Range fn order b v)) < length order \<longrightarrow>
            fst (Range fn order b v) \<noteq> []
            \<and> \<not> snd (snd (last (fst (Range fn order b v))))))"
proof -
  have "\<forall>s\<in>dom (map_entries (ulisteners ub)).
      int (the ((map_option length \<circ> map_entries (ulisteners ub)) s)) = UWatchCount s ub"
    using ucount_entry by blast
  note k = range_map_summary [OF _ this, of order fn v, folded URange_def]
  have "\<forall>s\<in>dom (map_entries (listeners b)).
      int (the ((map_option len \<circ> map_entries (listeners b)) s)) = WatchCount s b"
    using count_entry by blast
  note d = range_map_summary [OF _ this, of order fn v, folded Range_def]
  from k d show ?thesis by blast
qed


theorem Range_stops_at_first_false_witness:
  "\<exists>ub b. uapply_all [UCallWatch ''s1'' (Uniquer 1 ''x''), UCallWatch ''s1'' (Uniquer 2 ''y''),
                        UCallWatch ''s2'' (Uniquer 1 ''z'')]
              (NewUnique :: (unit, nat, string) UniqueBroadcast) = Some ub
     \<and> enumerates [''s2'', ''s1''] (map_entries (ulisteners ub))
     \<and> length (fst (URange (\<lambda>s n v. (False, v)) [''s2'', ''s1''] ub ())) = 1
     \<and> fst (URange (\<lambda>s n v. (True, v)) [''s2'', ''s1''] ub ()) = [(''s2'', 1, True), (''s1'', 2, True)]
     \<and> apply_all double_cap [CallWatch ''s1'' ''a'', CallWatch ''s1'' ''b'', CallWatch ''s2'' ''c'']
              (New :: (unit, string) Broadcast_reg) = Some b
     \<and> enumerates [''s2'', ''s1''] (map_entries (listeners b))
     \<and> length (fst (Range (\<lambda>s n v. (False, v)) [''s2'', ''s1''] b ())) = 1
     \<and> fst (Range (\<lambda>s n v. (True, v)) [''s2'', ''s1''] b ()) = [(''s2'', 1, True), (''s1'', 2, True)]"
proof -
  let ?ucs = "[UCallWatch ''s1'' (Uniquer (1::nat) ''x''), UCallWatch ''s1'' (Uniquer 2 ''y''),
               UCallWatch ''s2'' (Uniquer 1 ''z'')]"
  let ?cs = "[CallWatch ''s1'' ''a'', CallWatch ''s1'' ''b'', CallWatch ''s2'' ''c'']"
  let ?order = "[''s2'', ''s1'']"
  have "\<exists>ub. uapply_all ?ucs (NewUnique :: (unit, nat, string) UniqueBroadcast) = Some ub
      \<and> enumerates ?order (map_entries (ulisteners ub))
      \<and> UWatchCount ''s1'' ub = 2 \<and> UWatchCount ''s2'' ub = 1"
    by (auto simp: UWatch_eq ukeys_def uentries_def map_index_def elems_def map_entries_def
        NewUnique_def enumerates_def UWatchCount_def)
  then obtain ub where ub: "uapply_all ?ucs (NewUnique :: (unit, nat, string) UniqueBroadcast) = Some ub"
    "enumerates ?order (map_entries (ulisteners ub))" "UWatchCount ''s1'' ub = 2" "UWatchCount ''s2'' ub = 1"
    by blast
  have "\<exists>b. apply_all double_cap ?cs (New :: (unit, string) Broadcast_reg) = Some b
      \<and> enumerates ?order (map_entries (listeners b))
      \<and> WatchCount ''s1'' b = 2 \<and> WatchCount ''s2'' b = 1"
    by (auto simp: Watch_def Let_def New_def lazy_map_def map_index_def slice_elems_def
        append_slice_def newcap_def double_cap_def map_assign_def enumerates_def map_entries_def
        WatchCount_def slice_len_def)
  then obtain b where b: "apply_all double_cap ?cs (New :: (unit, string) Broadcast_reg) = Some b"
    "enumerates ?order (map_entries (listeners b))" "WatchCount ''s1'' b = 2" "WatchCount ''s2'' b = 1"
    by blast
  note f = Range_stops_at_first_false [where order = ?order and ub = ub and b = b and v = "()"
      and fn = "\<lambda>s n v. (False, v)"]
  note t = Range_stops_at_first_false [where order = ?order and ub = ub and b = b and v = "()"
      and fn = "\<lambda>s n v. (True, v)"]
  from f ub(2) have c1: "length (fst (URange (\<lambda>s n v. (False, v)) ?order ub ())) = 1" by simp
  from t ub(2,3,4) have c2: "fst (URange (\<lambda>s n v. (True, v)) ?order ub ()) = [(''s2'', 1, True), (''s1'', 2, True)]"
    by simp
  from f b(2) have c3: "length (fst (Range (\<lambda>s n v. (False, v)) ?order b ())) = 1" by simp
  from t b(2,3,4) have c4: "fst (Range (\<lambda>s n v. (True, v)) ?order b ()) = [(''s2'', 1, True), (''s1'', 2, True)]"
    by simp
  show ?thesis
    using ub(1,2) c1 c2 b(1,2) c3 c4 by (intro conjI exI) assumption+
qed

text \<open>
  Claim C10. When \<open>Unwatch\<close> removes the last listener of a signal, the signal stays in
  the map with an empty slice: \<open>HasWatch\<close> is false and the count is 0, yet a \<open>Range\<close>
  whose visitor keeps answering true still visits the signal, with count 0. \<open>Handle\<close>,
  \<open>Watch\<close> and \<open>Unwatch\<close> never take a signal out of the map. After \<open>Clean\<close> of the
  signal, or \<open>CleanAll\<close>, no \<open>Range\<close> visits it. Keyed registry: every state. Direct
  registry: every state that calls reach from a new registry.
\<close>

theorem Unwatch_leaves_empty_signal_in_Range:
  "(uentries s ub = [e] \<and> Unique d = Unique e \<longrightarrow>
      (\<exists>ub'. UUnwatch s d ub = Some ub' \<and> map_index (ulisteners ub') s = Some []
          \<and> \<not> UHasWatch s ub' \<and> UWatchCount s ub' = 0
          \<and> (enumerates order (map_entries (ulisteners ub')) \<and> (\<forall>s n v'. fst (fn s n v'))
                \<longrightarrow> (s, 0, True) \<in> set (fst (URange fn order ub' v)))))
   \<and> (map_index (ulisteners ub) s \<noteq> None \<longrightarrow>
        map_index (ulisteners (UHandle h ub)) s \<noteq> None
        \<and> (UWatch s' d ub = Some ub1 \<longrightarrow> map_index (ulisteners ub1) s \<noteq> None)
        \<and> (UUnwatch s' d ub = Some ub2 \<longrightarrow> map_index (ulisteners ub2) s \<noteq> None))
   \<and> (s, n, c) \<notin> set (fst (URange fn order (UClean s ub) v))
   \<and> fst (URange fn order (UCleanAll ub) v) = []
   \<and> \<not> UHasWatch s (UClean s ub) \<and> UWatchCount s (UClean s ub) = 0
   \<and> (initial b0 \<and> apply_all gc cs b0 = Some b \<and> entries s b = [Some x] \<longrightarrow>
      (\<exists>b' a. Unwatch gc s x b = Some b' \<and> map_index (listeners b') s = Some (Slice a 0)
          \<and> \<not> HasWatch s b' \<and> WatchCount s b' = 0
          \<and> (enumerates order (map_entries (listeners b')) \<and> (\<forall>s n v'. fst (fn s n v'))
                \<longrightarrow> (s, 0, True) \<in> set (fst (Range fn order b' v)))))
   \<and> (initial b0 \<and> apply_all gc cs b0 = Some b \<and> map_index (listeners b) s \<noteq> None \<longrightarrow>
        map_index (listeners (Handle h b)) s \<noteq> None
        \<and> (Watch gc s' y b = Some b1 \<longrightarrow> map_index (listeners b1) s \<noteq> None)
        \<and> (Unwatch gc s' y b = Some b2 \<longrightarrow> map_index (listeners b2) s \<noteq> None))
   \<and> (s, n, c) \<notin> set (fst (Range fn order (Clean s b) v))
   \<and> fst (Range fn order (CleanAll b) v) = []
   \<and> \<not> HasWatch s (Clean s b) \<and> WatchCount s (Clean s b) = 0"
proof -
  have k1: "\<exists>ub'. UUnwatch s d ub = Some ub' \<and> map_index (ulisteners ub') s = Some []
          \<and> \<not> UHasWatch s ub' \<and> UWatchCount s ub' = 0
          \<and> (enumerates order (map_entries (ulisteners ub')) \<and> (\<forall>s n v'. fst (fn s n v'))
                \<longrightarrow> (s, 0, True) \<in> set (fst (URange fn order ub' v)))"
    if "uentries s ub = [e]" "Unique d = Unique e"
  proof -
    from that have mem: "Unique d \<in> set (ukeys s ub)" by (simp add: ukeys_def)
    from uentries_UUnwatch [of s d ub] mem obtain ub' i where
      u: "UUnwatch s d ub = Some ub'" "i < length (uentries s ub)"
        "uentries s ub' = take i (uentries s ub) @ drop (Suc i) (uentries s ub)"
        "map_index (ulisteners ub') s = Some (uentries s ub')"
      by blast
    from u(2,3) that(1) have "uentries s ub' = []" by simp
    with u(4) have p: "map_index (ulisteners ub') s = Some []" by simp
    then have "\<not> UHasWatch s ub'" "UWatchCount s ub' = 0"
      by (simp_all add: UHasWatch_def UWatchCount_def map_entries_index elems_def)
    moreover have "(s, 0, True) \<in> set (fst (URange fn order ub' v))"
      if "enumerates order (map_entries (ulisteners ub'))" "\<forall>s n v'. fst (fn s n v')"
      using range_map_visits_present [OF that(1) _ that(2), of s "[]" length v] p
      by (simp add: URange_def map_entries_index)
    ultimately show ?thesis using u(1) p by blast
  qed
  have k2: "map_index (ulisteners (UHandle h ub)) s \<noteq> None
        \<and> (UWatch s' d ub = Some ub1 \<longrightarrow> map_index (ulisteners ub1) s \<noteq> None)
        \<and> (UUnwatch s' d ub = Some ub2 \<longrightarrow> map_index (ulisteners ub2) s \<noteq> None)"
    if "map_index (ulisteners ub) s \<noteq> None"
  proof -
    from uentries_UWatch [of s' d ub] obtain w where
      w: "UWatch s' d ub = Some w"
        "\<forall>t. map_index (ulisteners ub) t \<noteq> None \<longrightarrow> map_index (ulisteners w) t \<noteq> None"
      by blast
    from uentries_UUnwatch [of s' d ub] obtain u where
      u: "UUnwatch s' d ub = Some u"
        "\<forall>t. map_index (ulisteners u) t = None \<longleftrightarrow> map_index (ulisteners ub) t = None"
      by blast
    have "map_index (ulisteners (UHandle h ub)) s \<noteq> None"
      using that by (simp add: UHandle_def)
    moreover have "map_index (ulisteners ub1) s \<noteq> None" if "UWatch s' d ub = Some ub1"
    proof -
      from that w(1) have "ub1 = w" by simp
      with w(2) \<open>map_index (ulisteners ub) s \<noteq> None\<close> show ?thesis by blast
    qed
    moreover have "map_index (ulisteners ub2) s \<noteq> None" if "UUnwatch s' d ub = Some ub2"
    proof -
      from that u(1) have "ub2 = u" by simp
      with u(2) \<open>map_index (ulisteners ub) s \<noteq> None\<close> show ?thesis by simp
    qed
    ultimately show ?thesis by blast
  qed
  have k3: "(s, n, c) \<notin> set (fst (URange fn order (UClean s ub) v))"
    unfolding URange_def
    by (rule range_map_absent) (simp add: map_entries_index UClean_def map_index_deleted)
  have k4: "fst (URange fn order (UCleanAll ub) v) = []"
    unfolding URange_def
    by (rule range_map_empty) (simp add: map_entries_def UCleanAll_def)
  have k5: "\<not> UHasWatch s (UClean s ub)" "UWatchCount s (UClean s ub) = 0"
    by (simp_all add: UHasWatch_def UWatchCount_def map_entries_index UClean_def map_index_deleted elems_def)
  have d1: "\<exists>b' a. Unwatch gc s x b = Some b' \<and> map_index (listeners b') s = Some (Slice a 0)
          \<and> \<not> HasWatch s b' \<and> WatchCount s b' = 0
          \<and> (enumerates order (map_entries (listeners b')) \<and> (\<forall>s n v'. fst (fn s n v'))
                \<longrightarrow> (s, 0, True) \<in> set (fst (Range fn order b' v)))"
    if "initial b0" "apply_all gc cs b0 = Some b" "entries s b = [Some x]"
  proof -
    from reachable_wf(1) [OF that(1,2)] have wf: "wf b" .
    from that(3) have pres: "map_index (listeners b) s \<noteq> None"
      by (cases "map_index (listeners b) s") (simp_all add: entries_def)
    from Unwatch_wf [OF wf, of gc s x] obtain b' where
      u: "Unwatch gc s x b = Some b'" "wf b'" "entries s b' = remove1 (Some x) (entries s b)"
        "\<forall>s'. map_index (listeners b') s' = None \<longleftrightarrow> map_index (listeners b) s' = None"
      by blast
    from u(4) pres obtain sl where sl: "map_index (listeners b') s = Some sl"
      by (cases "map_index (listeners b') s") auto
    from u(3) that(3) have "entries s b' = []" by simp
    with wf_slice_len [OF u(2), of s] sl have "len sl = 0" by (simp add: slice_len_def)
    with sl have p: "map_index (listeners b') s = Some (Slice (base sl) 0)"
      by (cases sl) simp
    then have "\<not> HasWatch s b'" "WatchCount s b' = 0"
      by (simp_all add: HasWatch_def WatchCount_def map_entries_index slice_len_def)
    moreover have "(s, 0, True) \<in> set (fst (Range fn order b' v))"
      if "enumerates order (map_entries (listeners b'))" "\<forall>s n v'. fst (fn s n v')"
      using range_map_visits_present [OF that(1) _ that(2), of s "Slice (base sl) 0" len v] p
      by (simp add: Range_def map_entries_index)
    ultimately show ?thesis using u(1) p by blast
  qed
  have d2: "map_index (listeners (Handle h b)) s \<noteq> None
        \<and> (Watch gc s' y b = Some b1 \<longrightarrow> map_index (listeners b1) s \<noteq> None)
        \<and> (Unwatch gc s' y b = Some b2 \<longrightarrow> map_index (listeners b2) s \<noteq> None)"
    if "initial b0" "apply_all gc cs b0 = Some b" "map_index (listeners b) s \<noteq> None"
  proof -
    from Watch_wf [OF reachable_wf(1) [OF that(1,2)], of gc s' y] obtain w where
      w: "Watch gc s' y b = Some w"
        "\<forall>t. map_index (listeners b) t \<noteq> None \<longrightarrow> map_index (listeners w) t \<noteq> None"
      by blast
    from Unwatch_wf [OF reachable_wf(1) [OF that(1,2)], of gc s' y] obtain u where
      u: "Unwatch gc s' y b = Some u"
        "\<forall>t. map_index (listeners u) t = None \<longleftrightarrow> map_index (listeners b) t = None"
      by blast
    have "map_index (listeners (Handle h b)) s \<noteq> None"
      using that(3) by (simp add: Handle_def)
    moreover have "map_index (listeners b1) s \<noteq> None" if "Watch gc s' y b = Some b1"
    proof -
      from that w(1) have "b1 = w" by simp
      with w(2) \<open>map_index (listeners b) s \<noteq> None\<close> show ?thesis by blast
    qed
    moreover have "map_index (listeners b2) s \<noteq> None" if "Unwatch gc s' y b = Some b2"
    proof -
      from that u(1) have "b2 = u" by simp
      with u(2) \<open>map_index (listeners b) s \<noteq> None\<close> show ?thesis by simp
    qed
    ultimately show ?thesis by blast
  qed
  have d3: "(s, n, c) \<notin> set (fst (Range fn order (Clean s b) v))"
    unfolding Range_def
    by (rule range_map_absent) (simp add: map_entries_index Clean_def map_index_deleted)
  have d4: "fst (Range fn order (CleanAll b) v) = []"
    unfolding Range_def
    by (rule range_map_empty) (simp add: map_entries_def CleanAll_def)
  have d5: "\<not> HasWatch s (Clean s b)" "WatchCount s (Clean s b) = 0"
    by (simp_all add: HasWatch_def WatchCount_def map_entries_index Clean_def map_index_deleted slice_len_def)
  from k1 k2 k3 k4 k5 d1 d2 d3 d4 d5 show ?thesis by blast
qed


theorem Unwatch_leaves_empty_signal_in_Range_witness:
  "\<exists>ub ub' b b'.
       uapply_all [UCallWatch ''s'' (Uniquer 1 ''x'')]
           (NewUnique :: (unit, nat, string) UniqueBroadcast) = Some ub
     \<and> uentries ''s'' ub = [Uniquer 1 ''x'']
     \<and> UUnwatch ''s'' (Uniquer 1 ''other'') ub = Some ub'
     \<and> enumerates [''s''] (map_entries (ulisteners ub'))
     \<and> \<not> UHasWatch ''s'' ub' \<and> UWatchCount ''s'' ub' = 0
     \<and> (''s'', 0, True) \<in> set (fst (URange (\<lambda>s n v. (True, v)) [''s''] ub' ()))
     \<and> (''s'', 0, True) \<notin> set (fst (URange (\<lambda>s n v. (True, v)) [''s''] (UClean ''s'' ub') ()))
     \<and> initial (New :: (unit, string) Broadcast_reg)
     \<and> apply_all double_cap [CallWatch ''s'' ''a''] (New :: (unit, string) Broadcast_reg) = Some b
     \<and> entries ''s'' b = [Some ''a'']
     \<and> Unwatch double_cap ''s'' ''a'' b = Some b'
     \<and> enumerates [''s''] (map_entries (listeners b'))
     \<and> \<not> HasWatch ''s'' b' \<and> WatchCount ''s'' b' = 0
     \<and> (''s'', 0, True) \<in> set (fst (Range (\<lambda>s n v. (True, v)) [''s''] b' ()))
     \<and> (''s'', 0, True) \<notin> set (fst (Range (\<lambda>s n v. (True, v)) [''s''] (Clean ''s'' b') ()))"
proof -
  let ?yes = "\<lambda>(s::string) (n::int) (v::unit). (True, v)"
  have "\<exists>ub ub'. uapply_all [UCallWatch ''s'' (Uniquer 1 ''x'')]
           (NewUnique :: (unit, nat, string) UniqueBroadcast) = Some ub
      \<and> uentries ''s'' ub = [Uniquer 1 ''x'']
      \<and> UUnwatch ''s'' (Uniquer 1 ''other'') ub = Some ub'
      \<and> enumerates [''s''] (map_entries (ulisteners ub'))"
    by (auto simp: UWatch_eq UUnwatch_eq ukeys_def uentries_def map_index_def elems_def map_entries_def
        NewUnique_def enumerates_def)
  then obtain ub ub' where ub: "uapply_all [UCallWatch ''s'' (Uniquer 1 ''x'')]
           (NewUnique :: (unit, nat, string) UniqueBroadcast) = Some ub"
      "uentries ''s'' ub = [Uniquer 1 ''x'']"
      "UUnwatch ''s'' (Uniquer 1 ''other'') ub = Some ub'"
      "enumerates [''s''] (map_entries (ulisteners ub'))"
    by blast
  have i: "initial (New :: (unit, string) Broadcast_reg)"
    by (simp add: initial_def)
  have "\<exists>b b'. apply_all double_cap [CallWatch ''s'' ''a''] (New :: (unit, string) Broadcast_reg) = Some b
      \<and> entries ''s'' b = [Some ''a'']
      \<and> Unwatch double_cap ''s'' ''a'' b = Some b'
      \<and> enumerates [''s''] (map_entries (listeners b'))"
    by (auto simp: Watch_def Unwatch_def Let_def New_def lazy_map_def map_index_def slice_elems_def
        append_slice_def newcap_def double_cap_def map_assign_def enumerates_def map_entries_def
        entries_def reslice_def)
  then obtain b b' where b: "apply_all double_cap [CallWatch ''s'' ''a''] (New :: (unit, string) Broadcast_reg) = Some b"
      "entries ''s'' b = [Some ''a'']"
      "Unwatch double_cap ''s'' ''a'' b = Some b'"
      "enumerates [''s''] (map_entries (listeners b'))"
    by blast
  have yes: "\<forall>s n v'. fst (?yes s n v')" by simp
  note inst = Unwatch_leaves_empty_signal_in_Range [where s = "''s''" and ub = ub and e = "Uniquer 1 ''x''"
      and d = "Uniquer 1 ''other''" and order = "[''s'']" and fn = ?yes and v = "()"
      and ?b0.0 = New and gc = double_cap and cs = "[CallWatch ''s'' ''a'']" and b = b and x = "''a''"]
  from inst [THEN conjunct1] ub(2,3,4) yes
  have k: "\<not> UHasWatch ''s'' ub'" "UWatchCount ''s'' ub' = 0"
    "(''s'', 0, True) \<in> set (fst (URange ?yes [''s''] ub' ()))"
    by auto
  from Unwatch_leaves_empty_signal_in_Range [where s = "''s''" and ub = ub' and n = 0 and c = True
      and order = "[''s'']" and fn = ?yes and v = "()", THEN conjunct2, THEN conjunct2, THEN conjunct1]
  have k': "(''s'', 0, True) \<notin> set (fst (URange ?yes [''s''] (UClean ''s'' ub') ()))" .
  from inst [THEN conjunct2, THEN conjunct2, THEN conjunct2, THEN conjunct2, THEN conjunct2,
      THEN conjunct2, THEN conjunct1] i b yes
  have d: "\<not> HasWatch ''s'' b'" "WatchCount ''s'' b' = 0"
    "(''s'', 0, True) \<in> set (fst (Range ?yes [''s''] b' ()))"
    by auto
  from Unwatch_leaves_empty_signal_in_Range [where s = "''s''" and b = b' and n = 0 and c = True
      and order = "[''s'']" and fn = ?yes and v = "()", THEN conjunct2, THEN conjunct2, THEN conjunct2,
      THEN conjunct2, THEN conjunct2, THEN conjunct2, THEN conjunct2, THEN conjunct2, THEN conjunct1]
  have d': "(''s'', 0, True) \<notin> set (fst (Range ?yes [''s''] (Clean ''s'' b') ()))" .
  show ?thesis
    using ub k k' i b d d' by (intro conjI exI) assumption+
qed

end
